theory Spec2Isabelle
  imports Main "HOL-Library.Word"
begin

unbundle bit_operations_syntax


section \<open>Data model of the logical time kernel\<close>

text \<open>Rust's \<open>u64\<close>: addition wraps, \<open>mod\<close> and the order are unsigned.\<close>

type_synonym u64 = "64 word"

text \<open>\<open>struct PartitionState { name, value, modulus }\<close>.\<close>

record PartitionState =
  p_name :: string
  p_value :: u64
  p_modulus :: u64

datatype PartitionOrder = LeastSignificantFirst | MostSignificantFirst

text \<open>
  \<open>enum PulseCondition\<close>. The variant \<open>Not\<close> is written \<open>NotC\<close>, since \<open>Not\<close> is the
  negation of HOL.
\<close>

datatype PulseCondition =
    Every u64
  | PartitionEquals string u64
  | PartitionModulo string u64 u64
  | TickRange u64 u64
  | NotC PulseCondition
  | And "PulseCondition list"
  | Or "PulseCondition list"

record PulseSpec =
  ps_name :: string
  ps_condition :: PulseCondition

text \<open>\<open>struct ClockSnapshot { tick, epoch, partitions }\<close>.\<close>

record ClockSnapshot =
  s_tick :: u64
  s_epoch :: u64
  s_partitions :: "PartitionState list"

record PulseFired =
  f_name :: string
  f_tick :: u64
  f_epoch :: u64

record TickOutcome =
  o_snapshot :: ClockSnapshot
  o_pulses :: "PulseFired list"
  o_overflowed :: bool

text \<open>\<open>struct Clock { tick, epoch, partitions, partition_order, pulses }\<close>.\<close>

record Clock =
  c_tick :: u64
  c_epoch :: u64
  c_partitions :: "PartitionState list"
  c_partition_order :: PartitionOrder
  c_pulses :: "PulseSpec list"

section \<open>Condition evaluation\<close>

text \<open>
  \<open>ClockSnapshot::partition(name) -> Option<&PartitionState>\<close> ("get partition by name"):
  the first partition of the snapshot with that name.
\<close>

definition partition :: "ClockSnapshot \<Rightarrow> string \<Rightarrow> PartitionState option" where
  "partition s n = find (\<lambda>p. p_name p = n) (s_partitions s)"

text \<open>
  \<open>PulseCondition::is_met\<close>. The result is \<open>None\<close> where the Rust code panics: the
  remainder \<open>tick % period\<close> with \<open>period == 0\<close>. \<open>&&\<close> is evaluated left to right and
  stops at the first \<open>false\<close>; \<open>all_met\<close> is \<open>cs.iter().all(..)\<close>, which stops at the first
  child that is false, and \<open>any_met\<close> is \<open>cs.iter().any(..)\<close>, which stops at the first child
  that is true.
\<close>

fun is_met :: "PulseCondition \<Rightarrow> u64 \<Rightarrow> ClockSnapshot \<Rightarrow> bool option"
  and all_met :: "PulseCondition list \<Rightarrow> u64 \<Rightarrow> ClockSnapshot \<Rightarrow> bool option"
  and any_met :: "PulseCondition list \<Rightarrow> u64 \<Rightarrow> ClockSnapshot \<Rightarrow> bool option"
where
  "is_met (Every period) t s =
     (if t \<noteq> 0 then (if period = 0 then None else Some (t mod period = 0)) else Some False)"
| "is_met (PartitionEquals n v) t s =
     (case partition s n of Some p \<Rightarrow> Some (p_value p = v) | None \<Rightarrow> Some False)"
| "is_met (PartitionModulo n m r) t s =
     (case partition s n of
        Some p \<Rightarrow> (if m \<noteq> 0 then Some (p_value p mod m = r) else Some False)
      | None \<Rightarrow> Some False)"
| "is_met (TickRange start endt) t s = Some (start \<le> t \<and> t \<le> endt)"
| "is_met (NotC c) t s = map_option Not (is_met c t s)"
| "is_met (And cs) t s = (if cs = [] then Some False else all_met cs t s)"
| "is_met (Or cs) t s = any_met cs t s"
| "all_met [] t s = Some True"
| "all_met (c # cs) t s =
     (case is_met c t s of
        None \<Rightarrow> None
      | Some b \<Rightarrow> (if b then all_met cs t s else Some False))"
| "any_met [] t s = Some False"
| "any_met (c # cs) t s =
     (case is_met c t s of
        None \<Rightarrow> None
      | Some b \<Rightarrow> (if b then Some True else any_met cs t s))"

section \<open>Stepping the clock\<close>

text \<open>
  \<open>PartitionState::increment\<close>: \<open>self.value += 1\<close>, then the value is reset to 0 and a carry
  is returned when it has reached the modulus. The addition is on \<open>u64\<close>: at the maximal value
  it panics in a debug build and wraps in a release build, so that case is \<open>None\<close> here.
\<close>

definition increment :: "PartitionState \<Rightarrow> (PartitionState \<times> bool) option" where
  "increment p =
     (if p_value p = - 1 then None
      else if p_value p + 1 \<ge> p_modulus p then Some (p\<lparr>p_value := 0\<rparr>, True)
      else Some (p\<lparr>p_value := p_value p + 1\<rparr>, False))"

text \<open>
  The loop of \<open>Clock::advance_partitions\<close> over the partitions in the order of the iterator:
  \<open>if !carry { break; } carry = partition.increment();\<close>
\<close>

fun advance_loop :: "bool \<Rightarrow> PartitionState list \<Rightarrow> PartitionState list option" where
  "advance_loop carry [] = Some []"
| "advance_loop carry (p # ps) =
     (if \<not> carry then Some (p # ps)
      else (case increment p of
              None \<Rightarrow> None
            | Some (p', carry') \<Rightarrow> map_option ((#) p') (advance_loop carry' ps)))"

text \<open>
  \<open>Clock::advance_partitions\<close>: the loop starts with \<open>carry = true\<close> and runs over
  \<open>&mut self.partitions\<close> or over \<open>self.partitions.iter_mut().rev()\<close>.
\<close>

definition advance_partitions :: "Clock \<Rightarrow> Clock option" where
  "advance_partitions c =
     (case c_partition_order c of
        LeastSignificantFirst \<Rightarrow>
          map_option (\<lambda>ps. c\<lparr>c_partitions := ps\<rparr>) (advance_loop True (c_partitions c))
      | MostSignificantFirst \<Rightarrow>
          map_option (\<lambda>ps. c\<lparr>c_partitions := rev ps\<rparr>)
            (advance_loop True (rev (c_partitions c))))"

text \<open>\<open>Clock::snapshot\<close>, \<open>Clock::tick_count\<close> and \<open>Clock::epoch\<close>: copies of the fields.\<close>

definition snapshot :: "Clock \<Rightarrow> ClockSnapshot" where
  "snapshot c = \<lparr>s_tick = c_tick c, s_epoch = c_epoch c, s_partitions = c_partitions c\<rparr>"

definition tick_count :: "Clock \<Rightarrow> u64" where
  "tick_count c = c_tick c"

definition epoch :: "Clock \<Rightarrow> u64" where
  "epoch c = c_epoch c"

text \<open>
  The pulse loop of \<open>Clock::tick\<close>: every pulse is evaluated, in registration order, and the
  ones that are met are pushed. A panic of \<open>is_met\<close> is a panic of the loop.
\<close>

fun eval_pulses :: "PulseSpec list \<Rightarrow> u64 \<Rightarrow> u64 \<Rightarrow> ClockSnapshot \<Rightarrow> PulseFired list option" where
  "eval_pulses [] t e s = Some []"
| "eval_pulses (pu # pus) t e s =
     (case is_met (ps_condition pu) t s of
        None \<Rightarrow> None
      | Some b \<Rightarrow>
          (case eval_pulses pus t e s of
             None \<Rightarrow> None
           | Some fired \<Rightarrow>
               Some (if b then \<lparr>f_name = ps_name pu, f_tick = t, f_epoch = e\<rparr> # fired
                     else fired)))"

definition overflow_pulse :: "u64 \<Rightarrow> u64 \<Rightarrow> PulseFired" where
  "overflow_pulse t e = \<lparr>f_name = ''__overflow__'', f_tick = t, f_epoch = e\<rparr>"

text \<open>
  \<open>Clock::tick\<close>: \<open>overflowing_add(1)\<close> on the tick counter, \<open>wrapping_add(1)\<close> on the epoch
  when it wrapped, the partitions, the snapshot, the pulses, the overflow pulse. The
  subscribers (\<open>broadcast\<close>) receive a copy of the outcome and do not change the clock.
\<close>

definition tick :: "Clock \<Rightarrow> (TickOutcome \<times> Clock) option" where
  "tick c =
     (let next_tick = c_tick c + 1;
          overflowed = (c_tick c = - 1);
          c1 = c\<lparr>c_tick := next_tick,
                 c_epoch := (if overflowed then c_epoch c + 1 else c_epoch c)\<rparr>
      in case advance_partitions c1 of
           None \<Rightarrow> None
         | Some c2 \<Rightarrow>
             (let snap = snapshot c2 in
              case eval_pulses (c_pulses c2) (c_tick c2) (c_epoch c2) snap of
                None \<Rightarrow> None
              | Some fired \<Rightarrow>
                  Some (\<lparr>o_snapshot = snap,
                         o_pulses = (if overflowed
                                     then fired @ [overflow_pulse (c_tick c2) (c_epoch c2)]
                                     else fired),
                         o_overflowed = overflowed\<rparr>, c2)))"

text \<open>The driver: \<open>n\<close> calls of \<open>tick\<close>, the outcomes dropped.\<close>

fun ticks :: "nat \<Rightarrow> Clock \<Rightarrow> Clock option" where
  "ticks 0 c = Some c"
| "ticks (Suc n) c = (case tick c of None \<Rightarrow> None | Some (out, c') \<Rightarrow> ticks n c')"

section \<open>Builder and validation\<close>

text \<open>
  Modelled from the spec: the variants \<open>DuplicatePartitionName\<close> and \<open>DuplicatePulseName\<close>
  of \<open>enum ClockError\<close> are not in the listing of the source, which has the six others;
  section 7 of the specification enumerates them, without fields, and \<open>build\<close> returns
  them at steps (1) and (5) of section 4.4.
\<close>

datatype ClockError =
    ZeroModulus string
  | ZeroPeriod string
  | ZeroConditionModulus string string
  | UnknownPartition string string
  | InvalidTickRange string u64 u64
  | MissingPartitionOrder
  | DuplicatePartitionName
  | DuplicatePulseName

text \<open>
  \<open>validate_condition(condition, partitions, pulse_name)\<close>, the arms in the order of the
  source: an unknown partition name is reported before a zero modulus. \<open>validate_all\<close> is the
  loop \<open>for c in cs { validate_condition(c, partitions, pulse_name)?; }\<close>.
\<close>

fun validate_condition :: "PulseCondition \<Rightarrow> string set \<Rightarrow> string \<Rightarrow> ClockError + unit"
  and validate_all :: "PulseCondition list \<Rightarrow> string set \<Rightarrow> string \<Rightarrow> ClockError + unit"
where
  "validate_condition (Every period) ps pn =
     (if period = 0 then Inl (ZeroPeriod pn) else Inr ())"
| "validate_condition (PartitionEquals n v) ps pn =
     (if n \<notin> ps then Inl (UnknownPartition pn n) else Inr ())"
| "validate_condition (PartitionModulo n m r) ps pn =
     (if n \<notin> ps then Inl (UnknownPartition pn n)
      else if m = 0 then Inl (ZeroConditionModulus pn n)
      else Inr ())"
| "validate_condition (TickRange start endt) ps pn =
     (if start > endt then Inl (InvalidTickRange pn start endt) else Inr ())"
| "validate_condition (NotC inner) ps pn = validate_condition inner ps pn"
| "validate_condition (And cs) ps pn = validate_all cs ps pn"
| "validate_condition (Or cs) ps pn = validate_all cs ps pn"
| "validate_all [] ps pn = Inr ()"
| "validate_all (c # cs) ps pn =
     (case validate_condition c ps pn of
        Inl e \<Rightarrow> Inl e
      | Inr u \<Rightarrow> validate_all cs ps pn)"

text \<open>
  The builder: \<open>struct WasmClockBuilder { partitions, pulses, order }\<close> with its constructor
  \<open>new\<close> and its method \<open>partition(name, modulus)\<close>, which is \<open>add_partition\<close> here
  (\<open>partition\<close> is the lookup of the snapshot); \<open>pulse_every\<close>, \<open>pulse_when\<close> and
  \<open>partition_order\<close> register a pulse or select the order in the same way.
\<close>

record PartitionSpec =
  spec_name :: string
  spec_modulus :: u64

record ClockBuilder =
  b_partitions :: "PartitionSpec list"
  b_pulses :: "PulseSpec list"
  b_order :: "PartitionOrder option"

definition new :: ClockBuilder where
  "new = \<lparr>b_partitions = [], b_pulses = [], b_order = None\<rparr>"

definition partition_order :: "PartitionOrder \<Rightarrow> ClockBuilder \<Rightarrow> ClockBuilder" where
  "partition_order ord b = b\<lparr>b_order := Some ord\<rparr>"

definition add_partition :: "string \<Rightarrow> u64 \<Rightarrow> ClockBuilder \<Rightarrow> ClockBuilder" where
  "add_partition n m b =
     b\<lparr>b_partitions := b_partitions b @ [\<lparr>spec_name = n, spec_modulus = m\<rparr>]\<rparr>"

definition pulse_when :: "string \<Rightarrow> PulseCondition \<Rightarrow> ClockBuilder \<Rightarrow> ClockBuilder" where
  "pulse_when n cond b =
     b\<lparr>b_pulses := b_pulses b @ [\<lparr>ps_name = n, ps_condition = cond\<rparr>]\<rparr>"

definition pulse_every :: "string \<Rightarrow> u64 \<Rightarrow> ClockBuilder \<Rightarrow> ClockBuilder" where
  "pulse_every n period b = pulse_when n (Every period) b"

text \<open>The steps of \<open>build\<close>: the first partition with a zero modulus, the first pulse
  whose condition is rejected.\<close>

fun check_moduli :: "PartitionSpec list \<Rightarrow> ClockError + unit" where
  "check_moduli [] = Inr ()"
| "check_moduli (sp # sps) =
     (if spec_modulus sp = 0 then Inl (ZeroModulus (spec_name sp)) else check_moduli sps)"

fun check_pulses :: "PulseSpec list \<Rightarrow> string set \<Rightarrow> ClockError + unit" where
  "check_pulses [] ps = Inr ()"
| "check_pulses (pu # pus) ps =
     (case validate_condition (ps_condition pu) ps (ps_name pu) of
        Inl e \<Rightarrow> Inl e
      | Inr u \<Rightarrow> check_pulses pus ps)"

text \<open>
  Modelled from the spec: \<open>build()\<close> is not part of the sources (the body of
  \<open>WasmClockBuilder::build\<close> is elided there). It follows section 4.4 of the specification,
  in its order, and returns the first violation: (1) duplicate partition names are rejected,
  (2) a zero modulus is rejected, (3) an order must have been selected when a partition is
  registered, (4) every pulse condition is validated by \<open>validate_condition\<close> against the
  set of partition names, (5) duplicate pulse names are rejected. The clock starts with tick 0,
  epoch 0 and every partition at 0; with no partition and no order selected the order is
  \<open>LeastSignificantFirst\<close>.
\<close>

definition build :: "ClockBuilder \<Rightarrow> ClockError + Clock" where
  "build b =
     (if \<not> distinct (map spec_name (b_partitions b)) then Inl DuplicatePartitionName
      else
        (case check_moduli (b_partitions b) of
           Inl e \<Rightarrow> Inl e
         | Inr u \<Rightarrow>
             if b_partitions b \<noteq> [] \<and> b_order b = None then Inl MissingPartitionOrder
             else (case check_pulses (b_pulses b) (set (map spec_name (b_partitions b))) of
                     Inl e \<Rightarrow> Inl e
                   | Inr u \<Rightarrow>
                       if \<not> distinct (map ps_name (b_pulses b)) then Inl DuplicatePulseName
                       else
                         Inr \<lparr>c_tick = 0, c_epoch = 0,
                              c_partitions =
                                map (\<lambda>sp. \<lparr>p_name = spec_name sp, p_value = 0,
                                             p_modulus = spec_modulus sp\<rparr>) (b_partitions b),
                              c_partition_order =
                                (case b_order b of
                                   Some ord \<Rightarrow> ord
                                 | None \<Rightarrow> LeastSignificantFirst),
                              c_pulses = b_pulses b\<rparr>)))"

section \<open>Properties used in the statements\<close>

text \<open>The partition invariant: every value is below its modulus.\<close>

definition partitions_ok :: "PartitionState list \<Rightarrow> bool" where
  "partitions_ok ps \<longleftrightarrow> (\<forall>p\<in>set ps. p_value p < p_modulus p)"

text \<open>
  What \<open>build\<close> establishes and \<open>tick\<close> keeps: the partition invariant, and every pulse
  condition accepted by \<open>validate_condition\<close> against the names of the partitions.
\<close>

definition clock_ok :: "Clock \<Rightarrow> bool" where
  "clock_ok c \<longleftrightarrow>
     partitions_ok (c_partitions c) \<and>
     (\<forall>pu\<in>set (c_pulses c).
        validate_condition (ps_condition pu) (set (map p_name (c_partitions c))) (ps_name pu)
          = Inr ())"

text \<open>
  The cascade as the specification words it, by positions: the leading partitions that
  stand at their last value (\<open>value + 1 = modulus\<close>) are reset to 0, the first partition
  that does not is incremented, the partitions after it are not touched.
\<close>

definition at_top :: "PartitionState \<Rightarrow> bool" where
  "at_top p \<longleftrightarrow> Suc (unat (p_value p)) = unat (p_modulus p)"

definition cascade_spec :: "PartitionState list \<Rightarrow> PartitionState list" where
  "cascade_spec ps =
     (let k = length (takeWhile at_top ps)
      in map (\<lambda>p. p\<lparr>p_value := 0\<rparr>) (take k ps) @
         (case drop k ps of [] \<Rightarrow> [] | q # qs \<Rightarrow> q\<lparr>p_value := p_value q + 1\<rparr> # qs))"

text \<open>The cascade starts at position 0 under \<open>LeastSignificantFirst\<close> and at the last
  position under \<open>MostSignificantFirst\<close>.\<close>

definition advanced :: "PartitionOrder \<Rightarrow> PartitionState list \<Rightarrow> PartitionState list" where
  "advanced ord ps =
     (case ord of
        LeastSignificantFirst \<Rightarrow> cascade_spec ps
      | MostSignificantFirst \<Rightarrow> rev (cascade_spec (rev ps)))"

text \<open>The clock after one step, and the record of a pulse that fired.\<close>

definition stepped :: "Clock \<Rightarrow> Clock" where
  "stepped c =
     c\<lparr>c_tick := c_tick c + 1,
       c_epoch := (if c_tick c = - 1 then c_epoch c + 1 else c_epoch c),
       c_partitions := advanced (c_partition_order c) (c_partitions c)\<rparr>"

definition fired_of :: "u64 \<Rightarrow> u64 \<Rightarrow> PulseSpec \<Rightarrow> PulseFired" where
  "fired_of t e pu = \<lparr>f_name = ps_name pu, f_tick = t, f_epoch = e\<rparr>"

text \<open>The registered pulses whose condition is met in the clock \<open>c\<close>, in registration
  order, and the records pushed for them.\<close>

definition firing :: "Clock \<Rightarrow> PulseSpec list" where
  "firing c =
     filter (\<lambda>pu. is_met (ps_condition pu) (c_tick c) (snapshot c) = Some True) (c_pulses c)"

definition user_pulses :: "Clock \<Rightarrow> PulseFired list" where
  "user_pulses c = map (fired_of (c_tick c) (c_epoch c)) (firing c)"

text \<open>The builder of the cascade example: \<open>[sec:60, min:60]\<close>, least significant first.\<close>

definition sec_min :: ClockBuilder where
  "sec_min =
     add_partition ''min'' 60
       (add_partition ''sec'' 60 (partition_order LeastSignificantFirst new))"

text \<open>The clock that a successful \<open>build\<close> returns.\<close>

definition fresh :: "ClockBuilder \<Rightarrow> Clock" where
  "fresh b =
     \<lparr>c_tick = 0, c_epoch = 0,
      c_partitions =
        map (\<lambda>sp. \<lparr>p_name = spec_name sp, p_value = 0, p_modulus = spec_modulus sp\<rparr>)
          (b_partitions b),
      c_partition_order = (case b_order b of Some ord \<Rightarrow> ord | None \<Rightarrow> LeastSignificantFirst),
      c_pulses = b_pulses b\<rparr>"


section \<open>Validity of a configuration, as the specification words it\<close>


text \<open>The nodes of a condition tree.\<close>

fun nodes :: "PulseCondition \<Rightarrow> PulseCondition set" where
  "nodes (NotC c) = insert (NotC c) (nodes c)"
| "nodes (And cs) = insert (And cs) (\<Union>c\<in>set cs. nodes c)"
| "nodes (Or cs) = insert (Or cs) (\<Union>c\<in>set cs. nodes c)"
| "nodes c = {c}"







section \<open>The bridge: condition literals\<close>

text \<open>
  The values of the host that the parser reads: \<open>JsInt\<close> is an integral numeric value,
  \<open>JsObject\<close> a plain object with its own properties in order.
\<close>

datatype JsValue =
    JsUndefined
  | JsNull
  | JsBool bool
  | JsInt int
  | JsString string
  | JsArray "JsValue list"
  | JsObject "(string \<times> JsValue) list"

text \<open>The errors of the parser (the Rust code returns them as \<open>JsValue\<close>).\<close>

datatype JsError =
    TypeError
  | TypeMustBeString
  | UnknownConditionType
  | MalformedField string

text \<open>
  \<open>Reflect::get(&obj, key)\<close>: the property of an object, \<open>undefined\<close> when it has none;
  a \<open>TypeError\<close> when the target is not an object. None of the keys that the parser reads is
  a property of an array.
\<close>

fun reflect_get :: "JsValue \<Rightarrow> string \<Rightarrow> JsError + JsValue" where
  "reflect_get (JsObject fs) k = Inr (case map_of fs k of Some v \<Rightarrow> v | None \<Rightarrow> JsUndefined)"
| "reflect_get (JsArray xs) k = Inr JsUndefined"
| "reflect_get v k = Inl TypeError"

text \<open>\<open>JsValue::as_string\<close>.\<close>

fun as_string :: "JsValue \<Rightarrow> string option" where
  "as_string (JsString s) = Some s"
| "as_string v = None"

text \<open>
  Modelled from the spec: the helpers \<open>get_u64\<close>, \<open>get_string\<close> and \<open>get_conditions\<close> are
  called by \<open>parse_condition\<close> and are not part of the sources. A field of the literal
  grammar is a \<open>uint\<close>, a string or a list of conditions; a malformed field is a typed error.
  \<open>get_array\<close> is the part of \<open>get_conditions\<close> that reads the field \<open>conditions\<close>.
\<close>

definition get_u64 :: "JsValue \<Rightarrow> string \<Rightarrow> JsError + u64" where
  "get_u64 obj key =
     (case reflect_get obj key of
        Inl e \<Rightarrow> Inl e
      | Inr v \<Rightarrow>
          (case v of
             JsInt i \<Rightarrow> if 0 \<le> i \<and> i < 2 ^ 64 then Inr (word_of_int i)
                        else Inl (MalformedField key)
           | _ \<Rightarrow> Inl (MalformedField key)))"

definition get_string :: "JsValue \<Rightarrow> string \<Rightarrow> JsError + string" where
  "get_string obj key =
     (case reflect_get obj key of
        Inl e \<Rightarrow> Inl e
      | Inr v \<Rightarrow>
          (case v of
             JsString s \<Rightarrow> Inr s
           | _ \<Rightarrow> Inl (MalformedField key)))"

definition get_array :: "JsValue \<Rightarrow> string \<Rightarrow> JsError + JsValue list" where
  "get_array obj key =
     (case reflect_get obj key of
        Inl e \<Rightarrow> Inl e
      | Inr v \<Rightarrow>
          (case v of
             JsArray xs \<Rightarrow> Inr xs
           | _ \<Rightarrow> Inl (MalformedField key)))"

text \<open>
  \<open>parse_condition\<close>, the arms of the source in their order: \<open>every\<close>,
  \<open>partition_equals\<close>, \<open>and\<close>, \<open>or\<close>, \<open>not\<close>, and \<open>_ => Err("unknown condition type")\<close>
  for every other discriminator. \<open>parse_conditions\<close> is the loop of \<open>get_conditions\<close> over
  the elements of the array.
\<close>

function parse_condition :: "JsValue \<Rightarrow> JsError + PulseCondition"
  and parse_conditions :: "JsValue list \<Rightarrow> JsError + PulseCondition list"
where
  "parse_condition v =
     (case reflect_get v ''type'' of
        Inl e \<Rightarrow> Inl e
      | Inr tv \<Rightarrow>
          (case as_string tv of
             None \<Rightarrow> Inl TypeMustBeString
           | Some kind \<Rightarrow>
               if kind = ''every'' then
                 (case get_u64 v ''period'' of
                    Inl e \<Rightarrow> Inl e
                  | Inr p \<Rightarrow> Inr (Every p))
               else if kind = ''partition_equals'' then
                 (case get_string v ''name'' of
                    Inl e \<Rightarrow> Inl e
                  | Inr n \<Rightarrow>
                      (case get_u64 v ''value'' of
                         Inl e \<Rightarrow> Inl e
                       | Inr x \<Rightarrow> Inr (PartitionEquals n x)))
               else if kind = ''and'' then
                 (case get_array v ''conditions'' of
                    Inl e \<Rightarrow> Inl e
                  | Inr xs \<Rightarrow>
                      (case parse_conditions xs of
                         Inl e \<Rightarrow> Inl e
                       | Inr cs \<Rightarrow> Inr (And cs)))
               else if kind = ''or'' then
                 (case get_array v ''conditions'' of
                    Inl e \<Rightarrow> Inl e
                  | Inr xs \<Rightarrow>
                      (case parse_conditions xs of
                         Inl e \<Rightarrow> Inl e
                       | Inr cs \<Rightarrow> Inr (Or cs)))
               else if kind = ''not'' then
                 (case reflect_get v ''condition'' of
                    Inl e \<Rightarrow> Inl e
                  | Inr inner \<Rightarrow>
                      (case parse_condition inner of
                         Inl e \<Rightarrow> Inl e
                       | Inr c \<Rightarrow> Inr (NotC c)))
               else Inl UnknownConditionType))"
| "parse_conditions [] = Inr []"
| "parse_conditions (x # xs) =
     (case parse_condition x of
        Inl e \<Rightarrow> Inl e
      | Inr c \<Rightarrow>
          (case parse_conditions xs of
             Inl e \<Rightarrow> Inl e
           | Inr cs \<Rightarrow> Inr (c # cs)))"
  by pat_completeness auto

termination
proof -
  have m: "map_of fs k = Some v \<Longrightarrow> size v < Suc (size_list (size_prod (\<lambda>_. 0) size) fs)"
    for fs :: "(string \<times> JsValue) list" and k v
    by (induction fs) (auto split: if_splits)
  have r: "reflect_get v k = Inr x \<Longrightarrow> size x < size v" for v k x
    by (cases v) (auto split: option.splits dest: m)
  have a: "get_array v k = Inr xs \<Longrightarrow> size_list size xs < size v" for v k xs
    by (auto simp: get_array_def split: sum.splits JsValue.splits dest: r)
  show ?thesis
    by (relation "measure (case_sum size (size_list size))") (auto dest: r a)
qed

text \<open>
  The literal grammar of the specification, one object per node with a \<open>type\<close>
  discriminator, for the natively constructed condition it denotes.
\<close>

fun literal_of :: "PulseCondition \<Rightarrow> JsValue" where
  "literal_of (Every p) =
     JsObject [(''type'', JsString ''every''), (''period'', JsInt (uint p))]"
| "literal_of (PartitionEquals n v) =
     JsObject [(''type'', JsString ''partition_equals''), (''name'', JsString n),
               (''value'', JsInt (uint v))]"
| "literal_of (PartitionModulo n m r) =
     JsObject [(''type'', JsString ''partition_modulo''), (''name'', JsString n),
               (''modulus'', JsInt (uint m)), (''remainder'', JsInt (uint r))]"
| "literal_of (TickRange start endt) =
     JsObject [(''type'', JsString ''tick_range''), (''start'', JsInt (uint start)),
               (''end'', JsInt (uint endt))]"
| "literal_of (NotC c) =
     JsObject [(''type'', JsString ''not''), (''condition'', literal_of c)]"
| "literal_of (And cs) =
     JsObject [(''type'', JsString ''and''), (''conditions'', JsArray (map literal_of cs))]"
| "literal_of (Or cs) =
     JsObject [(''type'', JsString ''or''), (''conditions'', JsArray (map literal_of cs))]"

text \<open>The conditions without a \<open>PartitionModulo\<close> or \<open>TickRange\<close> node.\<close>

fun parser_covers :: "PulseCondition \<Rightarrow> bool" where
  "parser_covers (Every p) \<longleftrightarrow> True"
| "parser_covers (PartitionEquals n v) \<longleftrightarrow> True"
| "parser_covers (PartitionModulo n m r) \<longleftrightarrow> False"
| "parser_covers (TickRange start endt) \<longleftrightarrow> False"
| "parser_covers (NotC c) \<longleftrightarrow> parser_covers c"
| "parser_covers (And cs) \<longleftrightarrow> (\<forall>c\<in>set cs. parser_covers c)"
| "parser_covers (Or cs) \<longleftrightarrow> (\<forall>c\<in>set cs. parser_covers c)"

section \<open>The raw-buffer fast path\<close>

type_synonym u32 = "32 word"

text \<open>
  Modelled from the spec: \<open>raw_snapshot_len\<close>, \<open>raw_pulse_words\<close>, \<open>snapshot_raw\<close>,
  \<open>tick_raw\<close> and \<open>partition_moduli_raw\<close> are in the compiled module and are not part of the
  sources, which hold the wrapper that calls them and the description of the layout. They
  follow section 6 of the specification: a 64-bit value is a (low, high) pair of 32-bit
  words; the snapshot is \<open>[tick_lo, tick_hi, epoch_lo, epoch_hi, overflowed, partition_count,
  p0_lo, p0_hi, ...]\<close>; the pulse bitset has bit \<open>i\<close> for the pulse registered at position
  \<open>i\<close> and one more bit, after them, for the overflow pulse; a buffer shorter than the
  required length is refused (\<open>None\<close>), and the words beyond that length are left as they
  are. \<open>tick_raw\<close> steps the clock as \<open>tick\<close> does, without building the outcome.
\<close>

definition lo_word :: "u64 \<Rightarrow> u32" where
  "lo_word w = ucast w"

definition hi_word :: "u64 \<Rightarrow> u32" where
  "hi_word w = ucast (drop_bit 32 w)"

definition u64_words :: "u64 \<Rightarrow> u32 list" where
  "u64_words w = [lo_word w, hi_word w]"

definition raw_snapshot_len :: "Clock \<Rightarrow> nat" where
  "raw_snapshot_len c = 6 + 2 * length (c_partitions c)"

definition raw_pulse_words :: "Clock \<Rightarrow> nat" where
  "raw_pulse_words c = (length (c_pulses c) + 1 + 31) div 32"

definition snapshot_words :: "ClockSnapshot \<Rightarrow> bool \<Rightarrow> u32 list" where
  "snapshot_words s overflowed =
     u64_words (s_tick s) @ u64_words (s_epoch s) @
     [if overflowed then 1 else 0, of_nat (length (s_partitions s))] @
     concat (map (\<lambda>p. u64_words (p_value p)) (s_partitions s))"

definition write_buf :: "u32 list \<Rightarrow> u32 list \<Rightarrow> u32 list option" where
  "write_buf out ws =
     (if length out < length ws then None else Some (ws @ drop (length ws) out))"

definition snapshot_raw :: "Clock \<Rightarrow> u32 list \<Rightarrow> u32 list option" where
  "snapshot_raw c out = write_buf out (snapshot_words (snapshot c) False)"

definition partition_moduli_raw :: "Clock \<Rightarrow> u32 list \<Rightarrow> u32 list option" where
  "partition_moduli_raw c out =
     write_buf out (concat (map (\<lambda>p. u64_words (p_modulus p)) (c_partitions c)))"

fun eval_flags :: "PulseSpec list \<Rightarrow> u64 \<Rightarrow> ClockSnapshot \<Rightarrow> bool list option" where
  "eval_flags [] t s = Some []"
| "eval_flags (pu # pus) t s =
     (case is_met (ps_condition pu) t s of
        None \<Rightarrow> None
      | Some b \<Rightarrow> map_option ((#) b) (eval_flags pus t s))"

definition pack_bits :: "nat \<Rightarrow> bool list \<Rightarrow> u32 list" where
  "pack_bits n bs = map (\<lambda>j. horner_sum of_bool 2 (take 32 (drop (32 * j) bs))) [0..<n]"

definition tick_raw ::
  "Clock \<Rightarrow> u32 list \<Rightarrow> u32 list \<Rightarrow> ((u32 list \<times> u32 list) \<times> Clock) option" where
  "tick_raw c snapshot_out pulse_bits_out =
     (if length snapshot_out < raw_snapshot_len c \<or> length pulse_bits_out < raw_pulse_words c
      then None
      else
        (let next_tick = c_tick c + 1;
             wrapped = (next_tick = 0);
             c1 = c\<lparr>c_tick := next_tick,
                    c_epoch := (if wrapped then c_epoch c + 1 else c_epoch c)\<rparr>
         in case advance_partitions c1 of
              None \<Rightarrow> None
            | Some c2 \<Rightarrow>
                (case eval_flags (c_pulses c2) (c_tick c2) (snapshot c2) of
                   None \<Rightarrow> None
                 | Some flags \<Rightarrow>
                     (case write_buf snapshot_out (snapshot_words (snapshot c2) wrapped) of
                        None \<Rightarrow> None
                      | Some so \<Rightarrow>
                          (case write_buf pulse_bits_out
                                  (pack_bits (raw_pulse_words c) (flags @ [wrapped])) of
                             None \<Rightarrow> None
                           | Some bo \<Rightarrow> Some ((so, bo), c2))))))"

text \<open>The raw driver: \<open>n\<close> calls of \<open>tick_raw\<close> into the same two buffers.\<close>

fun raw_ticks ::
  "nat \<Rightarrow> Clock \<Rightarrow> u32 list \<Rightarrow> u32 list \<Rightarrow> ((u32 list \<times> u32 list) \<times> Clock) option" where
  "raw_ticks 0 c so bo = Some ((so, bo), c)"
| "raw_ticks (Suc n) c so bo =
     (case tick_raw c so bo of
        None \<Rightarrow> None
      | Some ((so', bo'), c') \<Rightarrow> raw_ticks n c' so' bo')"

text \<open>The host reads a 64-bit value from its two words, and a bit of the bitset.\<close>

definition join_words :: "u32 \<Rightarrow> u32 \<Rightarrow> u64" where
  "join_words lo hi = ucast lo OR push_bit 32 (ucast hi)"

definition bit_at :: "u32 list \<Rightarrow> nat \<Rightarrow> bool" where
  "bit_at ws i = bit (ws ! (i div 32)) (i mod 32)"

text \<open>
  The buffers \<open>so\<close> and \<open>bo\<close> agree field for field with the outcome \<open>out\<close> of the rich
  path, for a clock with the pulses of \<open>c\<close>: tick, epoch, overflow flag, partition count,
  every partition value, and the pulse list, which is the registered pulses whose bit is set, in
  order, followed by the overflow pulse when the reserved bit is set.
\<close>

definition raw_agrees :: "Clock \<Rightarrow> TickOutcome \<Rightarrow> u32 list \<Rightarrow> u32 list \<Rightarrow> bool" where
  "raw_agrees c out so bo \<longleftrightarrow>
     (let s = o_snapshot out; n = length (c_pulses c)
      in join_words (so ! 0) (so ! 1) = s_tick s \<and>
         join_words (so ! 2) (so ! 3) = s_epoch s \<and>
         (so ! 4 \<noteq> 0) = o_overflowed out \<and>
         unat (so ! 5) = length (s_partitions s) \<and>
         (\<forall>i<length (s_partitions s).
            join_words (so ! (6 + 2 * i)) (so ! (7 + 2 * i)) = p_value (s_partitions s ! i)) \<and>
         bit_at bo n = o_overflowed out \<and>
         o_pulses out =
           map (\<lambda>i. fired_of (s_tick s) (s_epoch s) (c_pulses c ! i))
             (filter (bit_at bo) [0..<n]) @
           (if bit_at bo n then [overflow_pulse (s_tick s) (s_epoch s)] else []))"

text \<open>The flags of the registered pulses in the clock \<open>c\<close>: met or not.\<close>

definition met_flags :: "Clock \<Rightarrow> bool list" where
  "met_flags c =
     map (\<lambda>pu. is_met (ps_condition pu) (c_tick c) (snapshot c) = Some True) (c_pulses c)"


section \<open>The increment primitive and the cascade\<close>

lemma below_not_max: "(v::u64) < m \<Longrightarrow> v \<noteq> - 1"
  by (metis word_not_simps(3))

lemma unat_succ_below: "(v::u64) < m \<Longrightarrow> unat (v + 1) = Suc (unat v)"
  by (metis (no_types, lifting) add.commute add_cancel_left_left inc_i
    linorder_not_less one_neq_zero unatSuc word_less_1)

lemma carry_iff:
  assumes "(v::u64) < m"
  shows "m \<le> v + 1 \<longleftrightarrow> Suc (unat v) = unat m"
proof -
  have "unat v < unat m" using assms by (simp add: word_less_nat_alt)
  moreover have "unat (v + 1) = Suc (unat v)" using assms by (rule unat_succ_below)
  ultimately show ?thesis by (auto simp: word_le_nat_alt)
qed

lemma modulus_pos:
  assumes "(v::u64) < m"
  shows "0 < m"
proof -
  have "unat v < unat m" using assms by (simp add: word_less_nat_alt)
  then have "unat (0::u64) < unat m" by simp
  then show ?thesis by (simp only: word_less_nat_alt)
qed

lemma succ_below:
  assumes "(v::u64) < m" and "Suc (unat v) \<noteq> unat m"
  shows "v + 1 < m"
proof -
  have "unat (v + 1) = Suc (unat v)" using assms(1) by (rule unat_succ_below)
  moreover have "unat v < unat m" using assms(1) by (simp add: word_less_nat_alt)
  ultimately show ?thesis using assms(2) by (simp add: word_less_nat_alt)
qed

lemma increment_ok:
  assumes "p_value p < p_modulus p"
  shows "increment p = Some (if at_top p then (p\<lparr>p_value := 0\<rparr>, True)
                             else (p\<lparr>p_value := p_value p + 1\<rparr>, False))"
  using assms below_not_max [OF assms] carry_iff [OF assms]
  by (simp add: increment_def at_top_def)

lemma advance_loop_False: "advance_loop False ps = Some ps"
  by (cases ps) simp_all

lemma cascade_spec_Nil: "cascade_spec [] = []"
  by (simp add: cascade_spec_def)

lemma cascade_spec_Cons:
  "cascade_spec (p # ps) =
     (if at_top p then p\<lparr>p_value := 0\<rparr> # cascade_spec ps
      else p\<lparr>p_value := p_value p + 1\<rparr> # ps)"
  by (simp add: cascade_spec_def Let_def)

lemma advance_loop_cascade:
  "partitions_ok ps \<Longrightarrow> advance_loop True ps = Some (cascade_spec ps)"
proof (induction ps)
  case Nil
  then show ?case by (simp add: cascade_spec_Nil)
next
  case (Cons p ps)
  then have b: "p_value p < p_modulus p" and ok: "partitions_ok ps"
    by (simp_all add: partitions_ok_def)
  show ?case
    using increment_ok [OF b] Cons.IH [OF ok]
    by (simp add: cascade_spec_Cons advance_loop_False)
qed

lemma cascade_spec_ok:
  "partitions_ok ps \<Longrightarrow> partitions_ok (cascade_spec ps)"
proof (induction ps)
  case Nil
  then show ?case by (simp add: cascade_spec_Nil)
next
  case (Cons p ps)
  then have b: "p_value p < p_modulus p" and ok: "partitions_ok ps"
    by (simp_all add: partitions_ok_def)
  show ?case
  proof (cases "at_top p")
    case True
    then show ?thesis
      using modulus_pos [OF b] Cons.IH [OF ok]
      by (simp add: cascade_spec_Cons partitions_ok_def)
  next
    case False
    then have "p_value p + 1 < p_modulus p"
      using succ_below [OF b] by (simp add: at_top_def)
    with False ok show ?thesis
      by (simp add: cascade_spec_Cons partitions_ok_def)
  qed
qed

lemma cascade_spec_names: "map p_name (cascade_spec ps) = map p_name ps"
  by (induction ps) (simp_all add: cascade_spec_Nil cascade_spec_Cons)

lemma cascade_spec_moduli: "map p_modulus (cascade_spec ps) = map p_modulus ps"
  by (induction ps) (simp_all add: cascade_spec_Nil cascade_spec_Cons)

lemma partitions_ok_rev: "partitions_ok (rev ps) = partitions_ok ps"
  by (simp add: partitions_ok_def)

lemma advance_partitions_ok:
  "partitions_ok (c_partitions c) \<Longrightarrow>
     advance_partitions c =
       Some (c\<lparr>c_partitions := advanced (c_partition_order c) (c_partitions c)\<rparr>)"
  by (cases "c_partition_order c")
     (simp_all add: advance_partitions_def advanced_def advance_loop_cascade partitions_ok_rev)

lemma advanced_ok: "partitions_ok ps \<Longrightarrow> partitions_ok (advanced ord ps)"
  by (cases ord) (simp_all add: advanced_def cascade_spec_ok partitions_ok_rev)

lemma advanced_names: "map p_name (advanced ord ps) = map p_name ps"
proof (cases ord)
  case LeastSignificantFirst
  then show ?thesis by (simp only: advanced_def PartitionOrder.case cascade_spec_names)
next
  case MostSignificantFirst
  have "map p_name (rev (cascade_spec (rev ps))) = rev (map p_name (cascade_spec (rev ps)))"
    by (simp add: rev_map)
  also have "\<dots> = map p_name ps" by (simp add: cascade_spec_names rev_map)
  finally show ?thesis using MostSignificantFirst by (simp only: advanced_def PartitionOrder.case)
qed

lemma advanced_moduli: "map p_modulus (advanced ord ps) = map p_modulus ps"
proof (cases ord)
  case LeastSignificantFirst
  then show ?thesis by (simp only: advanced_def PartitionOrder.case cascade_spec_moduli)
next
  case MostSignificantFirst
  have "map p_modulus (rev (cascade_spec (rev ps))) = rev (map p_modulus (cascade_spec (rev ps)))"
    by (simp add: rev_map)
  also have "\<dots> = map p_modulus ps" by (simp add: cascade_spec_moduli rev_map)
  finally show ?thesis using MostSignificantFirst by (simp only: advanced_def PartitionOrder.case)
qed

section \<open>Validated conditions do not trap\<close>

lemma valid_no_trap:
  "validate_condition c ps pn = Inr () \<Longrightarrow> is_met c t s \<noteq> None"
  "validate_all cs ps pn = Inr () \<Longrightarrow> all_met cs t s \<noteq> None \<and> any_met cs t s \<noteq> None"
  by (induction c ps pn and cs ps pn arbitrary: and rule: validate_condition_validate_all.induct)
     (auto split: option.splits if_splits sum.splits)

lemma eval_pulses_ok:
  "(\<forall>pu\<in>set pus. validate_condition (ps_condition pu) ns (ps_name pu) = Inr ()) \<Longrightarrow>
   eval_pulses pus t e s =
     Some (map (fired_of t e) (filter (\<lambda>pu. is_met (ps_condition pu) t s = Some True) pus))"
proof (induction pus)
  case Nil
  then show ?case by simp
next
  case (Cons pu pus)
  then have "is_met (ps_condition pu) t s \<noteq> None"
    using valid_no_trap(1) by (metis list.set_intros(1))
  then obtain b where b: "is_met (ps_condition pu) t s = Some b" by blast
  with Cons show ?case by (simp add: fired_of_def)
qed

section \<open>One step and many steps of a clock that satisfies the invariant\<close>

lemma tick_ok:
  assumes "clock_ok c"
  shows "tick c =
     Some (\<lparr>o_snapshot = snapshot (stepped c),
            o_pulses = user_pulses (stepped c) @
              (if c_tick c = - 1
               then [overflow_pulse (c_tick (stepped c)) (c_epoch (stepped c))] else []),
            o_overflowed = (c_tick c = - 1)\<rparr>, stepped c)"
proof -
  from assms have pok: "partitions_ok (c_partitions c)"
    and vok: "\<forall>pu\<in>set (c_pulses c).
        validate_condition (ps_condition pu) (set (map p_name (c_partitions c))) (ps_name pu)
          = Inr ()"
    by (simp_all add: clock_ok_def)
  let ?c1 = "c\<lparr>c_tick := c_tick c + 1,
                c_epoch := (if c_tick c = - 1 then c_epoch c + 1 else c_epoch c)\<rparr>"
  have adv: "advance_partitions ?c1 = Some (stepped c)"
    using advance_partitions_ok [of ?c1] pok by (simp add: stepped_def)
  have ev: "eval_pulses (c_pulses (stepped c)) t e s =
     Some (map (fired_of t e)
            (filter (\<lambda>pu. is_met (ps_condition pu) t s = Some True) (c_pulses (stepped c))))"
    for t e s
    using eval_pulses_ok [OF vok] by (simp add: stepped_def)
  show ?thesis
    unfolding tick_def Let_def adv option.case ev by (simp add: user_pulses_def firing_def)
qed

lemma stepped_ok: "clock_ok c \<Longrightarrow> clock_ok (stepped c)"
  by (simp add: clock_ok_def stepped_def advanced_ok advanced_names)

lemma stepped_fields:
  "c_tick (stepped c) = c_tick c + 1"
  "c_pulses (stepped c) = c_pulses c"
  "c_partition_order (stepped c) = c_partition_order c"
  "c_partitions (stepped c) = advanced (c_partition_order c) (c_partitions c)"
  "c_epoch (stepped c) = (if c_tick c = - 1 then c_epoch c + 1 else c_epoch c)"
  by (simp_all add: stepped_def)

lemma ticks_ok: "clock_ok c \<Longrightarrow> ticks n c = Some ((stepped ^^ n) c)"
proof (induction n arbitrary: c)
  case 0
  then show ?case by simp
next
  case (Suc n)
  from Suc.IH [OF stepped_ok [OF Suc.prems]] tick_ok [OF Suc.prems]
  show ?case by (simp add: funpow_swap1)
qed

lemma funpow_stepped_ok: "clock_ok c \<Longrightarrow> clock_ok ((stepped ^^ n) c)"
  by (induction n) (simp_all add: stepped_ok)

lemma funpow_stepped_tick: "c_tick ((stepped ^^ n) c) = c_tick c + of_nat n"
  by (induction n) (simp_all add: stepped_fields)

section \<open>What build returns\<close>

lemma check_moduli_Inr:
  "check_moduli sps = Inr () \<longleftrightarrow> (\<forall>sp\<in>set sps. spec_modulus sp \<noteq> 0)"
  by (induction sps) auto

lemma check_pulses_Inr:
  "check_pulses pus ns = Inr () \<longleftrightarrow>
     (\<forall>pu\<in>set pus. validate_condition (ps_condition pu) ns (ps_name pu) = Inr ())"
  by (induction pus) (auto split: sum.splits)

lemma build_Inr:
  "build b = Inr c \<longleftrightarrow>
     c = fresh b \<and>
     distinct (map spec_name (b_partitions b)) \<and>
     (\<forall>sp\<in>set (b_partitions b). spec_modulus sp \<noteq> 0) \<and>
     (b_partitions b \<noteq> [] \<longrightarrow> b_order b \<noteq> None) \<and>
     (\<forall>pu\<in>set (b_pulses b).
        validate_condition (ps_condition pu) (set (map spec_name (b_partitions b))) (ps_name pu)
          = Inr ()) \<and>
     distinct (map ps_name (b_pulses b))"
  (is "?L \<longleftrightarrow> ?F \<and> ?D1 \<and> ?M \<and> ?O \<and> ?V \<and> ?D2")
proof (cases ?D1)
  case False
  then show ?thesis by (simp add: build_def)
next
  case d1: True
  show ?thesis
  proof (cases "check_moduli (b_partitions b)")
    case (Inl e)
    then have "\<not> ?M" using check_moduli_Inr [of "b_partitions b"] by simp
    with Inl d1 show ?thesis by (simp add: build_def)
  next
    case m: (Inr u)
    then have mm: ?M using check_moduli_Inr [of "b_partitions b"] by simp
    show ?thesis
    proof (cases ?O)
      case False
      with m d1 show ?thesis by (simp add: build_def)
    next
      case ord: True
      show ?thesis
      proof (cases "check_pulses (b_pulses b) (set (map spec_name (b_partitions b)))")
        case (Inl e)
        then have "\<not> ?V"
          using check_pulses_Inr [of "b_pulses b" "set (map spec_name (b_partitions b))"] by simp
        with Inl m d1 ord show ?thesis by (simp add: build_def)
      next
        case v: (Inr w)
        then have vv: ?V
          using check_pulses_Inr [of "b_pulses b" "set (map spec_name (b_partitions b))"] by simp
        have "?L \<longleftrightarrow> ?F \<and> ?D2"
          using v m d1 ord by (auto simp: build_def fresh_def)
        with d1 mm ord vv show ?thesis by simp
      qed
    qed
  qed
qed

lemma build_clock_ok:
  assumes "build b = Inr c"
  shows "clock_ok c"
proof -
  from assms have c: "c = fresh b"
    and nz: "\<forall>sp\<in>set (b_partitions b). spec_modulus sp \<noteq> 0"
    and v: "\<forall>pu\<in>set (b_pulses b).
        validate_condition (ps_condition pu) (set (map spec_name (b_partitions b))) (ps_name pu)
          = Inr ()"
    by (simp_all add: build_Inr)
  have names: "map p_name (c_partitions c) = map spec_name (b_partitions b)"
    by (simp add: c fresh_def comp_def)
  have "partitions_ok (c_partitions c)"
    using nz by (auto simp: c fresh_def partitions_ok_def word_neq_0_conv)
  moreover have "c_pulses c = b_pulses b" by (simp add: c fresh_def)
  ultimately show ?thesis using v names by (simp add: clock_ok_def)
qed

section \<open>The partition invariant\<close>

text \<open>
  Claim C6. For every successfully built clock and every number \<open>n\<close> of calls of \<open>tick\<close>,
  the calls return, and in the clock they lead to every partition satisfies
  \<open>0 \<le> value < modulus\<close>; \<open>n = 0\<close> is the freshly built clock. The increment primitive
  keeps the bound: from a value below the modulus it returns, without a trap, a value below the
  modulus, and it carries exactly when it has reset the value to 0 at the modulus.
\<close>

theorem partition_invariant:
  assumes "build b = Inr c"
  shows "(\<exists>c'. ticks n c = Some c' \<and>
            (\<forall>p\<in>set (c_partitions c'). 0 \<le> p_value p \<and> p_value p < p_modulus p)) \<and>
         (\<forall>p. p_value p < p_modulus p \<longrightarrow>
            (\<exists>p' carry. increment p = Some (p', carry) \<and> p_value p' < p_modulus p' \<and>
               p_modulus p' = p_modulus p \<and>
               (carry \<longleftrightarrow> unat (p_value p) + 1 = unat (p_modulus p)) \<and>
               p_value p' = (if carry then 0 else p_value p + 1)))"
proof -
  have ok: "clock_ok c" using assms by (rule build_clock_ok)
  have "clock_ok ((stepped ^^ n) c)" using ok by (rule funpow_stepped_ok)
  then have "\<forall>p\<in>set (c_partitions ((stepped ^^ n) c)). 0 \<le> p_value p \<and> p_value p < p_modulus p"
    by (simp add: clock_ok_def partitions_ok_def)
  then have first: "\<exists>c'. ticks n c = Some c' \<and>
            (\<forall>p\<in>set (c_partitions c'). 0 \<le> p_value p \<and> p_value p < p_modulus p)"
    using ticks_ok [OF ok] by simp
  have second: "\<exists>p' carry. increment p = Some (p', carry) \<and> p_value p' < p_modulus p' \<and>
               p_modulus p' = p_modulus p \<and>
               (carry \<longleftrightarrow> unat (p_value p) + 1 = unat (p_modulus p)) \<and>
               p_value p' = (if carry then 0 else p_value p + 1)"
    if b: "p_value p < p_modulus p" for p
  proof (cases "at_top p")
    case True
    then show ?thesis
      using increment_ok [OF b] modulus_pos [OF b] by (auto simp: at_top_def)
  next
    case False
    then have "p_value p + 1 < p_modulus p"
      using succ_below [OF b] by (simp add: at_top_def)
    then show ?thesis
      using increment_ok [OF b] False by (auto simp: at_top_def)
  qed
  from first second show ?thesis by blast
qed

theorem partition_invariant_witness:
  "build sec_min = Inr (fresh sec_min) \<and>
   (\<exists>c'. ticks 61 (fresh sec_min) = Some c' \<and>
      (\<forall>p\<in>set (c_partitions c'). 0 \<le> p_value p \<and> p_value p < p_modulus p)) \<and>
   increment \<lparr>p_name = ''sec'', p_value = 59, p_modulus = 60\<rparr>
     = Some (\<lparr>p_name = ''sec'', p_value = 0, p_modulus = 60\<rparr>, True)"
proof -
  have b: "build sec_min = Inr (fresh sec_min)"
    by (simp add: build_def fresh_def sec_min_def add_partition_def partition_order_def new_def)
  have i: "increment \<lparr>p_name = ''sec'', p_value = 59, p_modulus = 60\<rparr>
     = Some (\<lparr>p_name = ''sec'', p_value = 0, p_modulus = 60\<rparr>, True)"
    by (simp add: increment_def)
  from partition_invariant [OF b, of 61] b i show ?thesis by blast
qed

section \<open>The tick counter\<close>

text \<open>
  Claim C7. For every \<open>n\<close>, the \<open>n\<close> calls of \<open>tick\<close> on a freshly built clock return, and
  then \<open>tick_count()\<close> is \<open>n\<close> modulo \<open>2^64\<close>; one more call returns too and increments the
  counter by exactly 1, wrapping to 0 at \<open>2^64\<close>.
\<close>

theorem tick_count_monotone:
  assumes "build b = Inr c"
  shows "\<exists>c'. ticks n c = Some c' \<and> unat (tick_count c') = n mod 2 ^ 64 \<and>
           (\<exists>out c''. tick c' = Some (out, c'') \<and>
              unat (tick_count c'') = (unat (tick_count c') + 1) mod 2 ^ 64)"
proof -
  have ok: "clock_ok c" using assms by (rule build_clock_ok)
  have t0: "c_tick c = 0" using assms by (simp add: build_Inr fresh_def)
  let ?c' = "(stepped ^^ n) c"
  have ok': "clock_ok ?c'" using ok by (rule funpow_stepped_ok)
  have "c_tick ?c' = of_nat n" using funpow_stepped_tick [of n c] t0 by simp
  then have a: "unat (tick_count ?c') = n mod 2 ^ 64"
    by (simp add: tick_count_def unat_of_nat)
  have "unat (c_tick ?c' + 1) = (unat (c_tick ?c') + 1) mod 2 ^ 64"
    by (simp add: unat_word_ariths)
  then have b: "unat (tick_count (stepped ?c')) = (unat (tick_count ?c') + 1) mod 2 ^ 64"
    by (simp add: tick_count_def stepped_fields)
  from ticks_ok [OF ok, of n] tick_ok [OF ok'] a b show ?thesis by blast
qed

theorem tick_count_monotone_witness:
  "build sec_min = Inr (fresh sec_min) \<and>
   (\<exists>c'. ticks 3 (fresh sec_min) = Some c' \<and> unat (tick_count c') = 3)"
proof -
  have b: "build sec_min = Inr (fresh sec_min)"
    by (simp add: build_def fresh_def sec_min_def add_partition_def partition_order_def new_def)
  from tick_count_monotone [OF b, of 3] b show ?thesis by auto
qed

section \<open>Overflow of the tick counter\<close>

lemma unat_max: "unat (- 1 :: u64) = 2 ^ 64 - 1"
  by (simp add: unsigned_minus_1_eq_mask mask_eq_exp_minus_1)

lemma unat_max_iff: "unat (w::u64) = 2 ^ 64 - 1 \<longleftrightarrow> w = - 1"
proof
  assume "unat w = 2 ^ 64 - 1"
  then have "unat w = unat (- 1 :: u64)" by (simp only: unat_max)
  then show "w = - 1" by (simp only: word_unat_eq_iff)
next
  assume "w = - 1"
  then show "unat w = 2 ^ 64 - 1" by (simp only: unat_max)
qed

text \<open>
  Claim C3. For every successfully built clock, in any state that calls of \<open>tick\<close> lead to:
  when the tick counter holds \<open>2^64 - 1\<close>, one call of \<open>tick\<close> returns, the counter is 0, the
  epoch is the previous epoch plus 1, \<open>overflowed\<close> is true, and the pulse list is the user
  pulses that fire, in registration order, followed by one pulse named \<open>__overflow__\<close>;
  when the counter holds another value, the call returns, \<open>overflowed\<close> is false, the epoch
  is unchanged and the pulse list is the user pulses that fire, with nothing appended.
\<close>

theorem overflow_step:
  assumes "build b = Inr c0" and "ticks n c0 = Some c"
  shows "(unat (tick_count c) = 2 ^ 64 - 1 \<longrightarrow>
            (\<exists>out c'. tick c = Some (out, c') \<and> tick_count c' = 0 \<and>
               epoch c' = epoch c + 1 \<and> o_overflowed out \<and>
               o_pulses out =
                 user_pulses c' @
                 [\<lparr>f_name = ''__overflow__'', f_tick = 0, f_epoch = epoch c + 1\<rparr>])) \<and>
         (unat (tick_count c) \<noteq> 2 ^ 64 - 1 \<longrightarrow>
            (\<exists>out c'. tick c = Some (out, c') \<and> tick_count c' = tick_count c + 1 \<and>
               epoch c' = epoch c \<and> \<not> o_overflowed out \<and>
               o_pulses out = user_pulses c'))"
proof -
  have ok0: "clock_ok c0" using assms(1) by (rule build_clock_ok)
  have "c = (stepped ^^ n) c0" using ticks_ok [OF ok0, of n] assms(2) by simp
  then have ok: "clock_ok c" using funpow_stepped_ok [OF ok0] by simp
  have top: "unat (tick_count c) = 2 ^ 64 - 1 \<longleftrightarrow> c_tick c = - 1"
    by (simp only: unat_max_iff tick_count_def)
  show ?thesis
  proof (cases "c_tick c = - 1")
    case True
    then show ?thesis
      unfolding top using tick_ok [OF ok]
      by (simp add: tick_count_def epoch_def stepped_fields overflow_pulse_def)
  next
    case False
    then show ?thesis
      unfolding top using tick_ok [OF ok]
      by (simp add: tick_count_def epoch_def stepped_fields)
  qed
qed

lemma build_new: "build new = Inr (fresh new)"
  by (simp add: build_def fresh_def new_def)

theorem overflow_step_witness:
  "build new = Inr (fresh new) \<and>
   (\<exists>c. ticks (2 ^ 64 - 1) (fresh new) = Some c \<and> unat (tick_count c) = 2 ^ 64 - 1 \<and>
      (\<exists>out c'. tick c = Some (out, c') \<and> tick_count c' = 0 \<and> epoch c' = epoch c + 1 \<and>
         o_overflowed out \<and>
         o_pulses out = [\<lparr>f_name = ''__overflow__'', f_tick = 0, f_epoch = epoch c + 1\<rparr>]))"
proof -
  let ?c = "(stepped ^^ (2 ^ 64 - 1)) (fresh new)"
  have ok0: "clock_ok (fresh new)" using build_new by (rule build_clock_ok)
  have run: "ticks (2 ^ 64 - 1) (fresh new) = Some ?c" using ok0 by (rule ticks_ok)
  have "c_tick ?c = of_nat (2 ^ 64 - 1)"
    using funpow_stepped_tick [of "2 ^ 64 - 1" "fresh new"] by (simp add: fresh_def)
  then have top: "unat (tick_count ?c) = 2 ^ 64 - 1"
    by (simp add: tick_count_def unat_max_iff)
  have "c_pulses ((stepped ^^ k) c) = c_pulses c" for k c
    by (induction k) (simp_all add: stepped_fields)
  then have none: "user_pulses (stepped ?c) = []"
    by (simp add: user_pulses_def firing_def stepped_fields fresh_def new_def)
  from overflow_step [OF build_new run] top obtain out c'
    where t: "tick ?c = Some (out, c')" "tick_count c' = 0" "epoch c' = epoch ?c + 1"
      "o_overflowed out"
      "o_pulses out = user_pulses c' @
         [\<lparr>f_name = ''__overflow__'', f_tick = 0, f_epoch = epoch ?c + 1\<rparr>]"
    by blast
  have "c' = stepped ?c"
    using t(1) tick_ok [OF funpow_stepped_ok [OF ok0, of "2 ^ 64 - 1"]] by simp
  with t none have "o_pulses out = [\<lparr>f_name = ''__overflow__'', f_tick = 0, f_epoch = epoch ?c + 1\<rparr>]"
    by simp
  with build_new run top t show ?thesis by blast
qed

section \<open>The cascade\<close>

lemma small_unat: "k < 60 \<Longrightarrow> unat (of_nat k :: u64) = k"
  by (simp add: unat_of_nat)

lemma sec_min_run:
  "c_partition_order ((stepped ^^ n) (fresh sec_min)) = LeastSignificantFirst \<and>
   c_partitions ((stepped ^^ n) (fresh sec_min)) =
     [\<lparr>p_name = ''sec'', p_value = of_nat (n mod 60), p_modulus = 60\<rparr>,
      \<lparr>p_name = ''min'', p_value = of_nat (n div 60 mod 60), p_modulus = 60\<rparr>]"
proof (induction n)
  case 0
  then show ?case
    by (simp add: fresh_def sec_min_def add_partition_def partition_order_def new_def)
next
  case (Suc n)
  have a: "unat (of_nat (n mod 60) :: u64) = n mod 60" by (rule small_unat) simp
  have b: "unat (of_nat (n div 60 mod 60) :: u64) = n div 60 mod 60" by (rule small_unat) simp
  from Suc show ?case
    by (simp add: stepped_fields advanced_def cascade_spec_Cons cascade_spec_Nil at_top_def
        a b mod_Suc div_Suc)
qed

lemma build_sec_min: "build sec_min = Inr (fresh sec_min)"
  by (simp add: build_def fresh_def sec_min_def add_partition_def partition_order_def new_def)

text \<open>
  Claim C2. On every call of \<open>tick\<close> of a successfully built clock the call returns and the
  partitions are cascade-advanced from the least significant end, position 0 under
  \<open>LeastSignificantFirst\<close> and the last position under \<open>MostSignificantFirst\<close>: the
  partitions met before the first one that does not reach its modulus are reset to 0, that one
  is incremented, and the others keep their value (\<open>cascade_spec\<close>); the snapshot of the
  outcome holds these partitions. For \<open>[sec:60, min:60]\<close>, least significant first, 60
  calls lead to \<open>sec = 0, min = 1\<close> and 3600 calls to \<open>sec = 0, min = 0\<close>.
\<close>

theorem cascade_advance:
  assumes "build b = Inr c0" and "ticks n c0 = Some c"
  shows "(\<exists>out c'. tick c = Some (out, c') \<and>
            c_partitions c' =
              (case c_partition_order c of
                 LeastSignificantFirst \<Rightarrow> cascade_spec (c_partitions c)
               | MostSignificantFirst \<Rightarrow> rev (cascade_spec (rev (c_partitions c)))) \<and>
            s_partitions (o_snapshot out) = c_partitions c') \<and>
         (\<exists>s0 s60 s3600. build sec_min = Inr s0 \<and>
            ticks 60 s0 = Some s60 \<and>
            map (\<lambda>p. (p_name p, p_value p)) (c_partitions s60) = [(''sec'', 0), (''min'', 1)] \<and>
            ticks 3600 s0 = Some s3600 \<and>
            map (\<lambda>p. (p_name p, p_value p)) (c_partitions s3600) = [(''sec'', 0), (''min'', 0)])"
proof -
  have ok0: "clock_ok c0" using assms(1) by (rule build_clock_ok)
  have "c = (stepped ^^ n) c0" using ticks_ok [OF ok0, of n] assms(2) by simp
  then have ok: "clock_ok c" using funpow_stepped_ok [OF ok0] by simp
  have first: "\<exists>out c'. tick c = Some (out, c') \<and>
            c_partitions c' =
              (case c_partition_order c of
                 LeastSignificantFirst \<Rightarrow> cascade_spec (c_partitions c)
               | MostSignificantFirst \<Rightarrow> rev (cascade_spec (rev (c_partitions c)))) \<and>
            s_partitions (o_snapshot out) = c_partitions c'"
    using tick_ok [OF ok] by (simp add: stepped_fields advanced_def snapshot_def)
  have oks: "clock_ok (fresh sec_min)" using build_sec_min by (rule build_clock_ok)
  have r60: "ticks 60 (fresh sec_min) = Some ((stepped ^^ 60) (fresh sec_min))"
    using oks by (rule ticks_ok)
  have r3600: "ticks 3600 (fresh sec_min) = Some ((stepped ^^ 3600) (fresh sec_min))"
    using oks by (rule ticks_ok)
  have p60: "map (\<lambda>p. (p_name p, p_value p)) (c_partitions ((stepped ^^ 60) (fresh sec_min)))
      = [(''sec'', 0), (''min'', 1)]"
    using sec_min_run [of 60] by simp
  have p3600: "map (\<lambda>p. (p_name p, p_value p)) (c_partitions ((stepped ^^ 3600) (fresh sec_min)))
      = [(''sec'', 0), (''min'', 0)]"
    using sec_min_run [of 3600] by simp
  have second: "\<exists>s0 s60 s3600. build sec_min = Inr s0 \<and>
            ticks 60 s0 = Some s60 \<and>
            map (\<lambda>p. (p_name p, p_value p)) (c_partitions s60) = [(''sec'', 0), (''min'', 1)] \<and>
            ticks 3600 s0 = Some s3600 \<and>
            map (\<lambda>p. (p_name p, p_value p)) (c_partitions s3600) = [(''sec'', 0), (''min'', 0)]"
    by (intro exI conjI) (rule build_sec_min r60 p60 r3600 p3600)+
  from first second show ?thesis by (rule conjI)
qed

theorem cascade_advance_witness:
  "build sec_min = Inr (fresh sec_min) \<and>
   (\<exists>c. ticks 59 (fresh sec_min) = Some c \<and>
      map p_value (c_partitions c) = [59, 0] \<and>
      (\<exists>out c'. tick c = Some (out, c') \<and> map p_value (c_partitions c') = [0, 1]))"
proof -
  let ?c = "(stepped ^^ 59) (fresh sec_min)"
  have oks: "clock_ok (fresh sec_min)" using build_sec_min by (rule build_clock_ok)
  have run: "ticks 59 (fresh sec_min) = Some ?c" using oks by (rule ticks_ok)
  have ps: "c_partition_order ?c = LeastSignificantFirst"
    "c_partitions ?c = [\<lparr>p_name = ''sec'', p_value = 59, p_modulus = 60\<rparr>,
                        \<lparr>p_name = ''min'', p_value = 0, p_modulus = 60\<rparr>]"
    using sec_min_run [of 59] by simp_all
  from cascade_advance [OF build_sec_min run] obtain out c'
    where t: "tick ?c = Some (out, c')"
      "c_partitions c' =
              (case c_partition_order ?c of
                 LeastSignificantFirst \<Rightarrow> cascade_spec (c_partitions ?c)
               | MostSignificantFirst \<Rightarrow> rev (cascade_spec (rev (c_partitions ?c))))"
    by blast
  from t(2) have "map p_value (c_partitions c') = [0, 1]"
    by (simp add: ps cascade_spec_Cons cascade_spec_Nil at_top_def)
  with build_sec_min run ps t(1) show ?thesis by simp
qed

section \<open>Periodic pulses\<close>

lemma every_met_iff:
  assumes "n \<noteq> 0"
  shows "(t \<noteq> 0 \<and> (t::u64) mod n = 0) \<longleftrightarrow> (\<exists>k>0. unat t = k * unat n)"
proof
  assume a: "t \<noteq> 0 \<and> t mod n = 0"
  then have "unat (t mod n) = 0" by simp
  then have "unat t mod unat n = 0" by (simp add: unat_mod)
  then have "unat n dvd unat t" by (simp only: mod_eq_0_iff_dvd)
  then obtain k where k: "unat t = k * unat n" unfolding dvd_def by (auto simp: mult.commute)
  moreover have "unat t \<noteq> 0" using a by (simp add: unat_eq_0)
  ultimately have "0 < k" by (cases k) simp_all
  with k show "\<exists>k>0. unat t = k * unat n" by blast
next
  assume "\<exists>k>0. unat t = k * unat n"
  then obtain k where k: "0 < k" "unat t = k * unat n" by blast
  have "0 < unat n" using assms by (simp add: unat_gt_0)
  with k have "unat t \<noteq> 0" by simp
  then have "t \<noteq> 0" by (simp add: unat_eq_0)
  moreover have "unat (t mod n) = 0" using k by (simp add: unat_mod)
  then have "t mod n = 0" by (simp add: unat_eq_0)
  ultimately show "t \<noteq> 0 \<and> t mod n = 0" by simp
qed

lemma funpow_stepped_pulses: "c_pulses ((stepped ^^ k) c) = c_pulses c"
  by (induction k) (simp_all add: stepped_fields)

text \<open>
  Claim C4. For every period \<open>n\<close> of a pulse registered in a successfully built clock,
  \<open>n\<close> is not 0, and at every tick value \<open>t\<close> and snapshot the condition \<open>Every(n)\<close>
  evaluates to true if and only if \<open>t \<noteq> 0\<close> and \<open>t % n = 0\<close>, that is at the positive
  multiples of \<open>n\<close>; it is false at tick 0, and \<open>Every(1)\<close> is true at tick 1. In the fresh
  clock the call of \<open>tick\<close> number \<open>k + 1\<close> (before the counter wraps) returns, its
  counter is \<open>k + 1\<close>, its pulses are the records of the pulses that fire, and the
  \<open>Every(n)\<close> pulse is among the firing ones exactly when \<open>n\<close> divides \<open>k + 1\<close>.
\<close>

theorem every_fires:
  assumes "build b = Inr c0" and "pu \<in> set (c_pulses c0)" and "ps_condition pu = Every n"
  shows "n \<noteq> 0 \<and>
         (\<forall>t s. is_met (Every n) t s = Some (t \<noteq> 0 \<and> t mod n = 0)) \<and>
         (\<forall>t s. is_met (Every n) t s = Some True \<longleftrightarrow> (\<exists>k>0. unat t = k * unat n)) \<and>
         (\<forall>s. is_met (Every n) 0 s = Some False) \<and>
         (n = 1 \<longrightarrow> (\<forall>s. is_met (Every n) 1 s = Some True)) \<and>
         (\<forall>k. Suc k < 2 ^ 64 \<longrightarrow>
            (\<exists>c out c'. ticks k c0 = Some c \<and> tick c = Some (out, c') \<and>
               unat (tick_count c') = Suc k \<and>
               o_pulses out = map (fired_of (tick_count c') (epoch c')) (firing c') \<and>
               (pu \<in> set (firing c') \<longleftrightarrow> unat n dvd Suc k)))"
proof -
  have ok0: "clock_ok c0" using assms(1) by (rule build_clock_ok)
  have "validate_condition (ps_condition pu) (set (map p_name (c_partitions c0))) (ps_name pu)
      = Inr ()"
    using ok0 assms(2) by (simp add: clock_ok_def)
  then have nz: "n \<noteq> 0" using assms(3) by (auto split: if_splits)
  have t0: "c_tick c0 = 0" using assms(1) by (simp add: build_Inr fresh_def)
  have met: "is_met (Every n) t s = Some (t \<noteq> 0 \<and> t mod n = 0)" for t s
    using nz by simp
  have mult: "is_met (Every n) t s = Some True \<longleftrightarrow> (\<exists>k>0. unat t = k * unat n)" for t s
    unfolding met using every_met_iff [OF nz, of t] by simp
  have run: "\<exists>c out c'. ticks k c0 = Some c \<and> tick c = Some (out, c') \<and>
               unat (tick_count c') = Suc k \<and>
               o_pulses out = map (fired_of (tick_count c') (epoch c')) (firing c') \<and>
               (pu \<in> set (firing c') \<longleftrightarrow> unat n dvd Suc k)"
    if k: "Suc k < 2 ^ 64" for k
  proof -
    let ?c = "(stepped ^^ k) c0"
    have ok: "clock_ok ?c" using ok0 by (rule funpow_stepped_ok)
    have tk: "c_tick ?c = of_nat k" using funpow_stepped_tick [of k c0] t0 by simp
    have "unat (of_nat k :: u64) = k" using k by (simp add: unat_of_nat)
    then have "unat (c_tick ?c) \<noteq> 2 ^ 64 - 1" using k tk by simp
    then have nomax: "c_tick ?c \<noteq> - 1" by (simp only: unat_max_iff [symmetric] not_False_eq_True)
    define t :: u64 where "t = of_nat (Suc k)"
    have ts: "c_tick (stepped ?c) = t" by (simp add: stepped_fields tk t_def)
    have "unat t = Suc k mod 2 ^ 64"
      unfolding t_def by (simp only: unat_of_nat) simp
    then have ut: "unat t = Suc k" using k by simp
    have mem: "pu \<in> set (c_pulses (stepped ?c))"
      using assms(2) by (simp add: stepped_fields funpow_stepped_pulses)
    have dv: "(\<exists>j>0. Suc k = j * unat n) \<longleftrightarrow> unat n dvd Suc k"
    proof
      assume "\<exists>j>0. Suc k = j * unat n"
      then obtain j where "Suc k = unat n * j" by (auto simp: mult.commute)
      then show "unat n dvd Suc k" unfolding dvd_def by blast
    next
      assume "unat n dvd Suc k"
      then obtain j where j: "Suc k = unat n * j" unfolding dvd_def by blast
      then have "0 < j" by (cases j) simp_all
      with j have "0 < j \<and> Suc k = j * unat n" by (simp add: mult.commute)
      then show "\<exists>j>0. Suc k = j * unat n" by blast
    qed
    have "pu \<in> set (firing (stepped ?c)) \<longleftrightarrow>
        is_met (ps_condition pu) (c_tick (stepped ?c)) (snapshot (stepped ?c)) = Some True"
      using mem by (simp add: firing_def)
    also have "\<dots> \<longleftrightarrow> (\<exists>j>0. unat t = j * unat n)"
      unfolding assms(3) ts by (rule mult)
    also have "\<dots> \<longleftrightarrow> (\<exists>j>0. Suc k = j * unat n)" by (simp only: ut)
    also have "\<dots> \<longleftrightarrow> unat n dvd Suc k" by (rule dv)
    finally have fm: "pu \<in> set (firing (stepped ?c)) \<longleftrightarrow> unat n dvd Suc k" .
    have "tick ?c = Some (\<lparr>o_snapshot = snapshot (stepped ?c),
            o_pulses = user_pulses (stepped ?c), o_overflowed = False\<rparr>, stepped ?c)"
      using tick_ok [OF ok] nomax by simp
    moreover have "unat (tick_count (stepped ?c)) = Suc k"
      by (simp add: tick_count_def ts ut)
    moreover have "user_pulses (stepped ?c) =
        map (fired_of (tick_count (stepped ?c)) (epoch (stepped ?c))) (firing (stepped ?c))"
      by (simp add: user_pulses_def tick_count_def epoch_def)
    ultimately show ?thesis
      using ticks_ok [OF ok0, of k] fm by simp
  qed
  from nz met mult run show ?thesis by simp
qed

theorem every_fires_witness:
  "build (pulse_every ''beat'' 3 new) = Inr (fresh (pulse_every ''beat'' 3 new)) \<and>
   is_met (Every 3) 6 (snapshot (fresh new)) = Some True \<and>
   is_met (Every 3) 7 (snapshot (fresh new)) = Some False \<and>
   (\<exists>c out c'. ticks 5 (fresh (pulse_every ''beat'' 3 new)) = Some c \<and>
      tick c = Some (out, c') \<and> unat (tick_count c') = 6 \<and>
      \<lparr>ps_name = ''beat'', ps_condition = Every 3\<rparr> \<in> set (firing c'))"
proof -
  let ?b = "pulse_every ''beat'' 3 new"
  let ?pu = "\<lparr>ps_name = ''beat'', ps_condition = Every 3\<rparr>"
  have b: "build ?b = Inr (fresh ?b)"
    by (simp add: build_def fresh_def pulse_every_def pulse_when_def new_def)
  have m: "?pu \<in> set (c_pulses (fresh ?b))"
    by (simp add: fresh_def pulse_every_def pulse_when_def new_def)
  have c: "ps_condition ?pu = Every 3" by simp
  note w = every_fires [OF b m c]
  from w have e: "is_met (Every 3) t s = Some (t \<noteq> 0 \<and> t mod 3 = 0)" for t s by blast
  from w have allk: "\<forall>k. Suc k < 2 ^ 64 \<longrightarrow>
            (\<exists>c out c'. ticks k (fresh ?b) = Some c \<and> tick c = Some (out, c') \<and>
               unat (tick_count c') = Suc k \<and>
               o_pulses out = map (fired_of (tick_count c') (epoch c')) (firing c') \<and>
               (?pu \<in> set (firing c') \<longleftrightarrow> unat (3::u64) dvd Suc k))"
    by blast
  have "Suc 5 < (2::nat) ^ 64" by simp
  with allk have "\<exists>c out c'. ticks 5 (fresh ?b) = Some c \<and> tick c = Some (out, c') \<and>
               unat (tick_count c') = Suc 5 \<and>
               o_pulses out = map (fired_of (tick_count c') (epoch c')) (firing c') \<and>
               (?pu \<in> set (firing c') \<longleftrightarrow> unat (3::u64) dvd Suc 5)"
    by blast
  moreover have "unat (3::u64) dvd Suc 5" by simp
  ultimately have r: "\<exists>c out c'. ticks 5 (fresh ?b) = Some c \<and> tick c = Some (out, c') \<and>
               unat (tick_count c') = 6 \<and> ?pu \<in> set (firing c')"
    by auto
  from b e [of 6] e [of 7] r show ?thesis by simp
qed

section \<open>Conjunction and disjunction\<close>

lemma all_met_True: "all_met cs t s = Some True \<longleftrightarrow> (\<forall>c\<in>set cs. is_met c t s = Some True)"
  by (induction cs) (auto split: option.splits)

lemma any_met_True: "any_met cs t s = Some True \<Longrightarrow> \<exists>c\<in>set cs. is_met c t s = Some True"
  by (induction cs) (auto split: option.splits if_splits)

lemma any_met_total:
  "(\<forall>c\<in>set cs. is_met c t s \<noteq> None) \<Longrightarrow>
   any_met cs t s = Some (\<exists>c\<in>set cs. is_met c t s = Some True)"
  by (induction cs) (auto split: option.splits if_splits)

lemma all_met_total:
  "(\<forall>c\<in>set cs. is_met c t s \<noteq> None) \<Longrightarrow>
   all_met cs t s = Some (\<forall>c\<in>set cs. is_met c t s = Some True)"
  by (induction cs) (auto split: option.splits if_splits)

lemma any_met_False:
  "any_met cs t s = Some False \<Longrightarrow> \<forall>c\<in>set cs. is_met c t s = Some False"
  by (induction cs) (auto split: option.splits if_splits)

lemma all_met_False:
  "all_met cs t s = Some False \<Longrightarrow> \<exists>c\<in>set cs. is_met c t s = Some False"
  by (induction cs) (auto split: option.splits if_splits)

text \<open>
  Claim C5. For every tick value and every snapshot, \<open>And\<close> of the empty list evaluates
  to false and \<open>Or\<close> of the empty list evaluates to false. \<open>And\<close> of a non-empty list
  is true if and only if every child is true. The value that \<open>And\<close> returns is true
  exactly when the list is non-empty and every child is true, and the value that \<open>Or\<close>
  returns is true exactly when at least one child is true. When the children evaluate to a
  truth value, as every validated condition does, \<open>And\<close> and \<open>Or\<close> return a value, and
  \<open>Or\<close> is true if and only if at least one child is true.
\<close>

theorem and_or_semantics:
  "is_met (And []) t s = Some False \<and>
   is_met (Or []) t s = Some False \<and>
   (cs \<noteq> [] \<longrightarrow>
      (is_met (And cs) t s = Some True \<longleftrightarrow> (\<forall>c\<in>set cs. is_met c t s = Some True))) \<and>
   (\<forall>b. is_met (And cs) t s = Some b \<longrightarrow>
      (b \<longleftrightarrow> cs \<noteq> [] \<and> (\<forall>c\<in>set cs. is_met c t s = Some True))) \<and>
   (\<forall>b. is_met (Or cs) t s = Some b \<longrightarrow>
      (b \<longleftrightarrow> (\<exists>c\<in>set cs. is_met c t s = Some True))) \<and>
   ((\<forall>c\<in>set cs. is_met c t s \<noteq> None) \<longrightarrow>
      is_met (And cs) t s \<noteq> None \<and> is_met (Or cs) t s \<noteq> None \<and>
      (is_met (Or cs) t s = Some True \<longleftrightarrow> (\<exists>c\<in>set cs. is_met c t s = Some True)))"
proof -
  have e1: "is_met (And []) t s = Some False" by simp
  have e2: "is_met (Or []) t s = Some False" by simp
  have a: "cs \<noteq> [] \<longrightarrow>
      (is_met (And cs) t s = Some True \<longleftrightarrow> (\<forall>c\<in>set cs. is_met c t s = Some True))"
    by (simp add: all_met_True)
  have pa: "b \<longleftrightarrow> cs \<noteq> [] \<and> (\<forall>c\<in>set cs. is_met c t s = Some True)"
    if "is_met (And cs) t s = Some b" for b
  proof (cases b)
    case True
    with that show ?thesis by (auto simp: all_met_True split: if_splits)
  next
    case False
    with that have "cs = [] \<or> all_met cs t s = Some False" by (auto split: if_splits)
    with False show ?thesis using all_met_False [of cs t s] by auto
  qed
  have po: "b \<longleftrightarrow> (\<exists>c\<in>set cs. is_met c t s = Some True)"
    if "is_met (Or cs) t s = Some b" for b
  proof (cases b)
    case True
    with that show ?thesis using any_met_True [of cs t s] by simp
  next
    case False
    with that show ?thesis using any_met_False [of cs t s] by auto
  qed
  have tot: "(\<forall>c\<in>set cs. is_met c t s \<noteq> None) \<longrightarrow>
      is_met (And cs) t s \<noteq> None \<and> is_met (Or cs) t s \<noteq> None \<and>
      (is_met (Or cs) t s = Some True \<longleftrightarrow> (\<exists>c\<in>set cs. is_met c t s = Some True))"
    using all_met_total [of cs t s] any_met_total [of cs t s] by auto
  have pa': "\<forall>b. is_met (And cs) t s = Some b \<longrightarrow>
      (b \<longleftrightarrow> cs \<noteq> [] \<and> (\<forall>c\<in>set cs. is_met c t s = Some True))"
    by (intro allI impI) (rule pa)
  have po': "\<forall>b. is_met (Or cs) t s = Some b \<longrightarrow>
      (b \<longleftrightarrow> (\<exists>c\<in>set cs. is_met c t s = Some True))"
    by (intro allI impI) (rule po)
  show ?thesis
    by (intro conjI) (rule e1 e2 a pa' po' tot)+
qed

theorem and_or_semantics_witness:
  "is_met (And [TickRange 1 9, Every 2]) 4 (snapshot (fresh new)) = Some True \<and>
   is_met (And [TickRange 1 9, Every 2]) 5 (snapshot (fresh new)) = Some False \<and>
   is_met (Or [TickRange 1 3, Every 2]) 5 (snapshot (fresh new)) = Some False \<and>
   is_met (Or [TickRange 1 3, Every 2]) 6 (snapshot (fresh new)) = Some True"
proof -
  let ?s = "snapshot (fresh new)"
  let ?a = "[TickRange 1 9, Every 2]"
  let ?o = "[TickRange 1 3, Every 2]"
  have e4: "\<forall>c\<in>set ?a. is_met c 4 ?s \<noteq> None" by auto
  have e5: "\<forall>c\<in>set ?a. is_met c 5 ?s \<noteq> None" by auto
  have o5: "\<forall>c\<in>set ?o. is_met c 5 ?s \<noteq> None" by auto
  have o6: "\<forall>c\<in>set ?o. is_met c 6 ?s \<noteq> None" by auto
  have a4: "\<forall>c\<in>set ?a. is_met c 4 ?s = Some True" by simp
  have a5: "\<not> (\<forall>c\<in>set ?a. is_met c 5 ?s = Some True)" by simp
  have n5: "\<not> (\<exists>c\<in>set ?o. is_met c 5 ?s = Some True)" by simp
  have y6: "\<exists>c\<in>set ?o. is_met c 6 ?s = Some True" by simp
  have ne: "?a \<noteq> []" by simp
  note w4 = and_or_semantics [of 4 ?s ?a]
  note w5 = and_or_semantics [of 5 ?s ?a]
  note v5 = and_or_semantics [of 5 ?s ?o]
  note v6 = and_or_semantics [of 6 ?s ?o]
  from w4 [THEN conjunct2, THEN conjunct2, THEN conjunct1] ne a4
  have 1: "is_met (And ?a) 4 ?s = Some True" by blast
  from w5 [THEN conjunct2, THEN conjunct2, THEN conjunct2, THEN conjunct2, THEN conjunct2] e5
  have "is_met (And ?a) 5 ?s \<noteq> None" by blast
  then obtain b where b: "is_met (And ?a) 5 ?s = Some b" by blast
  from w5 [THEN conjunct2, THEN conjunct2, THEN conjunct2, THEN conjunct1, rule_format, OF b] a5
  have "\<not> b" by blast
  with b have 2: "is_met (And ?a) 5 ?s = Some False" by simp
  from v5 [THEN conjunct2, THEN conjunct2, THEN conjunct2, THEN conjunct2, THEN conjunct2] o5
  have "is_met (Or ?o) 5 ?s \<noteq> None" by blast
  then obtain d where d: "is_met (Or ?o) 5 ?s = Some d" by blast
  from v5 [THEN conjunct2, THEN conjunct2, THEN conjunct2, THEN conjunct2, THEN conjunct1,
      rule_format, OF d] n5
  have "\<not> d" by blast
  with d have 3: "is_met (Or ?o) 5 ?s = Some False" by simp
  from v6 [THEN conjunct2, THEN conjunct2, THEN conjunct2, THEN conjunct2, THEN conjunct2] o6 y6
  have 4: "is_met (Or ?o) 6 ?s = Some True" by blast
  from 1 2 3 4 show ?thesis by simp
qed

section \<open>Evaluation of conditions that were not validated\<close>

lemma partition_modulo_zero:
  "is_met (PartitionModulo n 0 r) t s = Some False"
  by (simp split: option.splits)

lemma partition_absent:
  "partition s n = None \<Longrightarrow>
     is_met (PartitionEquals n v) t s = Some False \<and>
     is_met (PartitionModulo n m r) t s = Some False"
  by simp

lemma is_met_total_without_zero_period:
  "Every 0 \<notin> nodes c \<Longrightarrow> is_met c t s \<noteq> None"
proof (induction c)
  case (And cs)
  then have "\<forall>c\<in>set cs. is_met c t s \<noteq> None" by auto
  from all_met_total [OF this] show ?case by auto
next
  case (Or cs)
  then have "\<forall>c\<in>set cs. is_met c t s \<noteq> None" by auto
  from any_met_total [OF this] show ?case by auto
qed (auto split: option.splits)

text \<open>
  Claim C10. The claim says that \<open>is_met\<close> never traps, on any condition tree, tick value
  and snapshot. The guard against a zero divisor is in the \<open>PartitionModulo\<close> arm
  (\<open>partition_modulo_zero\<close>) and an absent partition gives false (\<open>partition_absent\<close>),
  but the \<open>Every\<close> arm computes \<open>tick % period\<close> with no guard: on \<open>Every(0)\<close>, which the
  builder rejects, every tick other than 0 traps. A tree with no \<open>Every(0)\<close> node never traps
  (\<open>is_met_total_without_zero_period\<close>).
\<close>

theorem every_zero_period_traps:
  "is_met (Every 0) 1 \<lparr>s_tick = 1, s_epoch = 0, s_partitions = []\<rparr> = None"
  by simp

section \<open>Validation and build\<close>











section \<open>Parsing condition literals\<close>

declare parse_condition.simps(1) [simp del]

lemma uint_in_range: "0 \<le> uint (w::u64) \<and> uint w < 2 ^ 64"
  using uint_lt2p [of w] by simp

lemma get_u64_literal:
  "map_of fs k = Some (JsInt (uint (w::u64))) \<Longrightarrow> get_u64 (JsObject fs) k = Inr w"
  using uint_in_range [of w] by (simp add: get_u64_def)

lemma parse_conditions_literal:
  "(\<forall>c\<in>set cs. parse_condition (literal_of c) = Inr c) \<Longrightarrow>
     parse_conditions (map literal_of cs) = Inr cs"
  by (induction cs) simp_all

lemma parse_literal:
  "parser_covers c \<Longrightarrow> parse_condition (literal_of c) = Inr c"
proof (induction c)
  case (Every p)
  show ?case by (simp add: parse_condition.simps(1) get_u64_literal)
next
  case (PartitionEquals n v)
  show ?case by (simp add: parse_condition.simps(1) get_u64_literal get_string_def)
next
  case (PartitionModulo n m r)
  then show ?case by simp
next
  case (TickRange start endt)
  then show ?case by simp
next
  case (NotC c)
  then show ?case by (simp add: parse_condition.simps(1))
next
  case (And cs)
  then have "\<forall>c\<in>set cs. parse_condition (literal_of c) = Inr c" by simp
  then have "parse_conditions (map literal_of cs) = Inr cs" by (rule parse_conditions_literal)
  then show ?case by (simp add: parse_condition.simps(1) get_array_def)
next
  case (Or cs)
  then have "\<forall>c\<in>set cs. parse_condition (literal_of c) = Inr c" by simp
  then have "parse_conditions (map literal_of cs) = Inr cs" by (rule parse_conditions_literal)
  then show ?case by (simp add: parse_condition.simps(1) get_array_def)
qed

lemma parse_unknown_discriminator:
  "kind \<notin> {''every'', ''partition_equals'', ''and'', ''or'', ''not''} \<Longrightarrow>
     parse_condition (JsObject ((''type'', JsString kind) # fs)) = Inl UnknownConditionType"
  by (simp add: parse_condition.simps(1))

lemma parse_type_not_string:
  "map_of fs ''type'' = None \<Longrightarrow> parse_condition (JsObject fs) = Inl TypeMustBeString"
  by (simp add: parse_condition.simps(1))

text \<open>
  Claim C8. The claim says that every variant of the grammar is constructible through the
  bridge. \<open>parse_condition\<close> has arms for \<open>every\<close>, \<open>partition_equals\<close>, \<open>and\<close>,
  \<open>or\<close> and \<open>not\<close> only: the literals of \<open>partition_modulo\<close> and \<open>tick_range\<close>
  fall to the arm of an unknown discriminator and are rejected. On the other variants the
  parsed literal is the native condition (\<open>parse_literal\<close>).
\<close>

theorem parse_condition_misses_variants:
  "parse_condition (literal_of (PartitionModulo ''min'' 15 0)) = Inl UnknownConditionType \<and>
   parse_condition (literal_of (TickRange 0 100)) = Inl UnknownConditionType"
  by (simp add: parse_condition.simps(1))

section \<open>The raw path refines the rich path\<close>

lemma join_split: "join_words (lo_word w) (hi_word w) = w"
  unfolding join_words_def lo_word_def hi_word_def
  by (rule bit_word_eqI) (auto simp: bit_simps)

lemma bit_pack:
  assumes "i < length bs" and "length bs \<le> 32 * n"
  shows "bit_at (pack_bits n bs @ rest) i = bs ! i"
proof -
  define k where "k = i div 32"
  define r where "r = i mod 32"
  have i: "i = 32 * k + r" and r: "r < 32" by (simp_all add: k_def r_def)
  have j: "k < n" using assms i by linarith
  have len: "r < length (take 32 (drop (32 * k) bs))"
    using assms(1) i r by simp
  have "(pack_bits n bs @ rest) ! k = horner_sum of_bool 2 (take 32 (drop (32 * k) bs))"
    using j by (simp add: pack_bits_def nth_append)
  then have "bit ((pack_bits n bs @ rest) ! k) r = (take 32 (drop (32 * k) bs)) ! r"
    using len r by (simp only: bit_horner_sum_bit_word_iff) simp
  also have "\<dots> = bs ! (32 * k + r)"
    using assms(1) i r by simp
  also have "\<dots> = bs ! i" by (simp only: i)
  finally have e: "bit ((pack_bits n bs @ rest) ! k) r = bs ! i" .
  show ?thesis unfolding bit_at_def k_def [symmetric] r_def [symmetric] by (rule e)
qed

lemma length_pack_bits: "length (pack_bits n bs) = n"
  by (simp add: pack_bits_def)

lemma bits_fit: "Suc n \<le> 32 * ((n + 1 + 31) div 32)"
proof -
  have "n + 32 = 32 * ((n + 32) div 32) + (n + 32) mod 32" by (simp only: mult_div_mod_eq)
  moreover have "(n + 32) mod 32 < 32" by simp
  ultimately have "n + 32 < 32 * ((n + 32) div 32) + 32" by linarith
  then show ?thesis by simp
qed

lemma length_pairs: "length (concat (map (\<lambda>p. [f p, g p]) ps)) = 2 * length ps"
  by (induction ps) simp_all

lemma nth_pairs:
  "i < length ps \<Longrightarrow>
     concat (map (\<lambda>p. [f p, g p]) ps) ! (2 * i) = f (ps ! i) \<and>
     concat (map (\<lambda>p. [f p, g p]) ps) ! (Suc (2 * i)) = g (ps ! i)"
proof (induction ps arbitrary: i)
  case Nil
  then show ?case by simp
next
  case (Cons p ps)
  show ?case
  proof (cases i)
    case 0
    then show ?thesis by simp
  next
    case (Suc j)
    with Cons.prems have "j < length ps" by simp
    from Cons.IH [OF this] Suc show ?thesis by simp
  qed
qed

lemma filter_by_index:
  "filter P xs = map (nth xs) (filter (\<lambda>i. P (xs ! i)) [0..<length xs])"
proof -
  have "filter P xs = filter P (map (nth xs) [0..<length xs])" by (simp add: map_nth)
  also have "\<dots> = map (nth xs) (filter (P \<circ> nth xs) [0..<length xs])"
    by (simp only: filter_map)
  finally show ?thesis by (simp add: comp_def)
qed

lemma wrap_iff: "(t::u64) + 1 = 0 \<longleftrightarrow> t = - 1"
  by (simp add: eq_neg_iff_add_eq_0)

lemma eval_flags_ok:
  "(\<forall>pu\<in>set pus. validate_condition (ps_condition pu) ns (ps_name pu) = Inr ()) \<Longrightarrow>
   eval_flags pus t s = Some (map (\<lambda>pu. is_met (ps_condition pu) t s = Some True) pus)"
proof (induction pus)
  case Nil
  then show ?case by simp
next
  case (Cons pu pus)
  then have "is_met (ps_condition pu) t s \<noteq> None"
    using valid_no_trap(1) by (metis list.set_intros(1))
  then obtain b where b: "is_met (ps_condition pu) t s = Some b" by blast
  with Cons show ?case by simp
qed

lemma length_advanced: "length (advanced ord ps) = length ps"
  using advanced_names [of ord ps] by (metis length_map)

lemma length_snapshot_words:
  "length (snapshot_words s ov) = 6 + 2 * length (s_partitions s)"
  by (simp add: snapshot_words_def u64_words_def length_pairs)

lemma raw_len_stepped:
  "raw_snapshot_len (stepped c) = raw_snapshot_len c"
  "raw_pulse_words (stepped c) = raw_pulse_words c"
  by (simp_all add: raw_snapshot_len_def raw_pulse_words_def stepped_fields length_advanced)

lemma tick_raw_ok:
  assumes "clock_ok c" and "raw_snapshot_len c \<le> length so"
    and "raw_pulse_words c \<le> length bo"
  shows "tick_raw c so bo =
     Some ((snapshot_words (snapshot (stepped c)) (c_tick c = - 1)
              @ drop (raw_snapshot_len c) so,
            pack_bits (raw_pulse_words c) (met_flags (stepped c) @ [c_tick c = - 1])
              @ drop (raw_pulse_words c) bo),
           stepped c)"
proof -
  from assms(1) have pok: "partitions_ok (c_partitions c)"
    and vok: "\<forall>pu\<in>set (c_pulses c).
        validate_condition (ps_condition pu) (set (map p_name (c_partitions c))) (ps_name pu)
          = Inr ()"
    by (simp_all add: clock_ok_def)
  let ?c1 = "c\<lparr>c_tick := c_tick c + 1,
                c_epoch := (if c_tick c = - 1 then c_epoch c + 1 else c_epoch c)\<rparr>"
  have adv: "advance_partitions ?c1 = Some (stepped c)"
    using advance_partitions_ok [of ?c1] pok by (simp add: stepped_def)
  have fl: "eval_flags (c_pulses (stepped c)) (c_tick (stepped c)) (snapshot (stepped c))
      = Some (met_flags (stepped c))"
    using eval_flags_ok [OF vok] by (simp add: met_flags_def stepped_fields)
  have l1: "length (snapshot_words (snapshot (stepped c)) ov) = raw_snapshot_len c" for ov
    by (simp add: length_snapshot_words snapshot_def stepped_fields length_advanced
        raw_snapshot_len_def)
  have w1: "write_buf so (snapshot_words (snapshot (stepped c)) ov)
      = Some (snapshot_words (snapshot (stepped c)) ov @ drop (raw_snapshot_len c) so)" for ov
    using assms(2) by (simp add: write_buf_def l1)
  have w2: "write_buf bo (pack_bits (raw_pulse_words c) bs)
      = Some (pack_bits (raw_pulse_words c) bs @ drop (raw_pulse_words c) bo)" for bs
    using assms(3) by (simp add: write_buf_def length_pack_bits)
  have guard: "\<not> (length so < raw_snapshot_len c \<or> length bo < raw_pulse_words c)"
    using assms(2,3) by simp
  show ?thesis
    unfolding tick_raw_def Let_def wrap_iff if_not_P [OF guard] adv option.case fl w1 w2
    by (rule refl)
qed

lemma nth_after_six: "(a # b # c # d # e # f # xs) ! (6 + k) = xs ! k"
proof -
  have "6 + k = Suc (Suc (Suc (Suc (Suc (Suc k)))))" by simp
  then show ?thesis by (simp only: nth_Cons_Suc)
qed

lemma snapshot_words_layout:
  "snapshot_words s ov =
     [lo_word (s_tick s), hi_word (s_tick s), lo_word (s_epoch s), hi_word (s_epoch s),
      (if ov then 1 else 0), of_nat (length (s_partitions s))] @
     concat (map (\<lambda>p. [lo_word (p_value p), hi_word (p_value p)]) (s_partitions s))"
  by (simp add: snapshot_words_def u64_words_def)

lemma snapshot_words_decode:
  assumes "length (s_partitions s) < 2 ^ 32"
  shows "join_words ((snapshot_words s ov @ rest) ! 0) ((snapshot_words s ov @ rest) ! 1)
           = s_tick s"
    and "join_words ((snapshot_words s ov @ rest) ! 2) ((snapshot_words s ov @ rest) ! 3)
           = s_epoch s"
    and "((snapshot_words s ov @ rest) ! 4 \<noteq> 0) = ov"
    and "unat ((snapshot_words s ov @ rest) ! 5) = length (s_partitions s)"
    and "\<forall>i<length (s_partitions s).
           join_words ((snapshot_words s ov @ rest) ! (6 + 2 * i))
                      ((snapshot_words s ov @ rest) ! (7 + 2 * i))
             = p_value (s_partitions s ! i)"
proof -
  let ?P = "concat (map (\<lambda>p. [lo_word (p_value p), hi_word (p_value p)]) (s_partitions s))"
  show "join_words ((snapshot_words s ov @ rest) ! 0) ((snapshot_words s ov @ rest) ! 1)
           = s_tick s"
    by (simp add: snapshot_words_layout join_split)
  show "join_words ((snapshot_words s ov @ rest) ! 2) ((snapshot_words s ov @ rest) ! 3)
           = s_epoch s"
    by (simp add: snapshot_words_layout join_split)
  show "((snapshot_words s ov @ rest) ! 4 \<noteq> 0) = ov"
    by (simp add: snapshot_words_layout)
  have "unat (of_nat (length (s_partitions s)) :: u32) = length (s_partitions s)"
    using assms by (simp add: unat_of_nat)
  then show "unat ((snapshot_words s ov @ rest) ! 5) = length (s_partitions s)"
    by (simp add: snapshot_words_layout)
  show "\<forall>i<length (s_partitions s).
           join_words ((snapshot_words s ov @ rest) ! (6 + 2 * i))
                      ((snapshot_words s ov @ rest) ! (7 + 2 * i))
             = p_value (s_partitions s ! i)"
  proof (intro allI impI)
    fix i
    assume i: "i < length (s_partitions s)"
    have seven: "7 + 2 * i = 6 + Suc (2 * i)" by simp
    have lp: "length ?P = 2 * length (s_partitions s)" by (rule length_pairs)
    have a: "(snapshot_words s ov @ rest) ! (6 + 2 * i) = ?P ! (2 * i)"
      using i lp by (simp only: snapshot_words_layout append_Cons append_Nil nth_after_six)
        (simp add: nth_append)
    have b: "(snapshot_words s ov @ rest) ! (7 + 2 * i) = ?P ! Suc (2 * i)"
      using i lp by (simp only: seven snapshot_words_layout append_Cons append_Nil nth_after_six)
        (simp add: nth_append)
    from nth_pairs [OF i, of "\<lambda>p. lo_word (p_value p)" "\<lambda>p. hi_word (p_value p)"]
    show "join_words ((snapshot_words s ov @ rest) ! (6 + 2 * i))
                      ((snapshot_words s ov @ rest) ! (7 + 2 * i))
             = p_value (s_partitions s ! i)"
      by (simp only: a b join_split)
  qed
qed

lemma pulse_bits_decode:
  fixes c :: Clock and ov :: bool and rest :: "u32 list"
  defines "bo \<equiv> pack_bits (raw_pulse_words c) (met_flags c @ [ov]) @ rest"
  shows "bit_at bo (length (c_pulses c)) = ov"
    and "user_pulses c =
           map (\<lambda>i. fired_of (c_tick c) (c_epoch c) (c_pulses c ! i))
             (filter (bit_at bo) [0..<length (c_pulses c)])"
proof -
  let ?n = "length (c_pulses c)"
  let ?met = "\<lambda>pu. is_met (ps_condition pu) (c_tick c) (snapshot c) = Some True"
  have lf: "length (met_flags c) = ?n" by (simp add: met_flags_def)
  have fit: "length (met_flags c @ [ov]) \<le> 32 * raw_pulse_words c"
    using bits_fit [of ?n] by (simp add: lf raw_pulse_words_def)
  have bit: "bit_at bo i = (met_flags c @ [ov]) ! i" if "i < Suc ?n" for i
    unfolding bo_def using that fit by (intro bit_pack) (simp_all add: lf)
  show "bit_at bo ?n = ov"
    using bit [of ?n] lf by (simp add: nth_append)
  have low: "bit_at bo i = ?met (c_pulses c ! i)" if "i < ?n" for i
    using bit [of i] that lf by (simp add: nth_append met_flags_def)
  have "filter (bit_at bo) [0..<?n] = filter (\<lambda>i. ?met (c_pulses c ! i)) [0..<?n]"
    by (rule filter_cong) (simp_all add: low)
  then show "user_pulses c =
           map (\<lambda>i. fired_of (c_tick c) (c_epoch c) (c_pulses c ! i))
             (filter (bit_at bo) [0..<?n])"
    by (simp add: user_pulses_def firing_def filter_by_index [of ?met "c_pulses c"] comp_def)
qed

lemma raw_agrees_step:
  assumes "length (c_partitions c) < 2 ^ 32"
  shows "raw_agrees c
     \<lparr>o_snapshot = snapshot (stepped c),
      o_pulses = user_pulses (stepped c) @
        (if ov then [overflow_pulse (c_tick (stepped c)) (c_epoch (stepped c))] else []),
      o_overflowed = ov\<rparr>
     (snapshot_words (snapshot (stepped c)) ov @ rest1)
     (pack_bits (raw_pulse_words c) (met_flags (stepped c) @ [ov]) @ rest2)"
proof -
  let ?s = "snapshot (stepped c)"
  have len: "length (s_partitions ?s) < 2 ^ 32"
    using assms by (simp add: snapshot_def stepped_fields length_advanced)
  have rp: "raw_pulse_words c = raw_pulse_words (stepped c)"
    and pc: "c_pulses c = c_pulses (stepped c)"
    by (simp_all add: raw_len_stepped stepped_fields)
  have st: "s_tick ?s = c_tick (stepped c)" "s_epoch ?s = c_epoch (stepped c)"
    by (simp_all add: snapshot_def)
  note d = snapshot_words_decode [OF len, of ov rest1]
  note p = pulse_bits_decode [of "stepped c" ov rest2]
  show ?thesis
    unfolding raw_agrees_def Let_def TickOutcome.simps rp pc st
    using d p by (simp add: st)
qed

lemma raw_ticks_ok:
  "clock_ok c \<Longrightarrow> raw_snapshot_len c \<le> length so \<Longrightarrow> raw_pulse_words c \<le> length bo \<Longrightarrow>
   \<exists>so' bo'. raw_ticks n c so bo = Some ((so', bo'), (stepped ^^ n) c) \<and>
     length so' = length so \<and> length bo' = length bo"
proof (induction n arbitrary: c so bo)
  case 0
  then show ?case by simp
next
  case (Suc n)
  let ?so = "snapshot_words (snapshot (stepped c)) (c_tick c = - 1)
              @ drop (raw_snapshot_len c) so"
  let ?bo = "pack_bits (raw_pulse_words c) (met_flags (stepped c) @ [c_tick c = - 1])
              @ drop (raw_pulse_words c) bo"
  have l1: "length ?so = length so"
    using Suc.prems(2)
    by (simp add: length_snapshot_words snapshot_def stepped_fields length_advanced
        raw_snapshot_len_def)
  have l2: "length ?bo = length bo"
    using Suc.prems(3) by (simp add: length_pack_bits)
  have p2: "raw_snapshot_len (stepped c) \<le> length ?so"
    unfolding l1 raw_len_stepped by (rule Suc.prems(2))
  have p3: "raw_pulse_words (stepped c) \<le> length ?bo"
    unfolding l2 raw_len_stepped by (rule Suc.prems(3))
  from Suc.IH [OF stepped_ok [OF Suc.prems(1)] p2 p3] obtain so' bo'
    where r: "raw_ticks n (stepped c) ?so ?bo = Some ((so', bo'), (stepped ^^ n) (stepped c))"
      and ls: "length so' = length ?so" and lb: "length bo' = length ?bo"
    by blast
  have "raw_ticks (Suc n) c so bo = Some ((so', bo'), (stepped ^^ Suc n) c)"
    using tick_raw_ok [OF Suc.prems] r by (simp add: funpow_swap1)
  moreover have "length so' = length so" using ls l1 by (rule trans)
  moreover have "length bo' = length bo" using lb l2 by (rule trans)
  ultimately show ?case by blast
qed

lemma moduli_raw_ok:
  "2 * length (c_partitions c) \<le> length mo \<Longrightarrow>
   partition_moduli_raw c mo =
     Some (concat (map (\<lambda>p. [lo_word (p_modulus p), hi_word (p_modulus p)]) (c_partitions c))
           @ drop (2 * length (c_partitions c)) mo)"
  by (simp add: partition_moduli_raw_def write_buf_def u64_words_def length_pairs)

lemma moduli_decode:
  assumes "i < length ps"
  shows "join_words
           ((concat (map (\<lambda>p. [lo_word (p_modulus p), hi_word (p_modulus p)]) ps) @ rest)
              ! (2 * i))
           ((concat (map (\<lambda>p. [lo_word (p_modulus p), hi_word (p_modulus p)]) ps) @ rest)
              ! Suc (2 * i))
         = p_modulus (ps ! i)"
proof -
  let ?M = "concat (map (\<lambda>p. [lo_word (p_modulus p), hi_word (p_modulus p)]) ps)"
  have lm: "length ?M = 2 * length ps" by (rule length_pairs)
  have a: "(?M @ rest) ! (2 * i) = ?M ! (2 * i)" using assms lm by (simp add: nth_append)
  have b: "(?M @ rest) ! Suc (2 * i) = ?M ! Suc (2 * i)" using assms lm by (simp add: nth_append)
  from nth_pairs [OF assms, of "\<lambda>p. lo_word (p_modulus p)" "\<lambda>p. hi_word (p_modulus p)"]
  show ?thesis by (simp only: a b join_split)
qed

lemma funpow_stepped_len:
  "length (c_partitions ((stepped ^^ n) c)) = length (c_partitions c)"
  by (induction n) (simp_all add: stepped_fields length_advanced)

lemma raw_len_funpow:
  "raw_snapshot_len ((stepped ^^ n) c) = raw_snapshot_len c"
  "raw_pulse_words ((stepped ^^ n) c) = raw_pulse_words c"
  by (induction n) (simp_all add: raw_len_stepped)

lemma take_written: "length ws = k \<Longrightarrow> take k (ws @ rest) = ws"
  by simp

text \<open>
  Claim C9. For a successfully built clock and buffers of the required lengths, the rich
  driver and the raw driver are in the same clock after any number \<open>n\<close> of steps, and on the
  next step \<open>tick\<close> and \<open>tick_raw\<close> both return, lead to the same clock and agree field for
  field (\<open>raw_agrees\<close>). The snapshot buffer holds
  \<open>[tick_lo, tick_hi, epoch_lo, epoch_hi, overflowed, partition_count, p0_lo, p0_hi, ...]\<close>,
  after \<open>tick_raw\<close> and after \<open>snapshot_raw\<close>; the bitset has room for one bit after the bits
  of the registered pulses, and that bit is the overflow flag; \<open>partition_moduli_raw\<close> writes a
  (low, high) pair for each modulus in partition order, and each pair joins to the modulus.
\<close>

theorem raw_path_refines:
  assumes "build b = Inr c0" and "ticks n c0 = Some c"
    and "raw_snapshot_len c0 \<le> length so" and "raw_pulse_words c0 \<le> length bo"
    and "2 * length (c_partitions c0) \<le> length mo"
    and "length (c_partitions c0) < 2 ^ 32"
  shows "\<exists>so_n bo_n out c' so' bo' sr mo'.
     raw_ticks n c0 so bo = Some ((so_n, bo_n), c) \<and>
     tick c = Some (out, c') \<and>
     tick_raw c so_n bo_n = Some ((so', bo'), c') \<and>
     raw_agrees c out so' bo' \<and>
     take (raw_snapshot_len c) so' =
       [lo_word (tick_count c'), hi_word (tick_count c'),
        lo_word (epoch c'), hi_word (epoch c'),
        (if o_overflowed out then 1 else 0), of_nat (length (c_partitions c'))] @
       concat (map (\<lambda>p. [lo_word (p_value p), hi_word (p_value p)]) (c_partitions c')) \<and>
     length (c_pulses c) < 32 * raw_pulse_words c \<and>
     bit_at bo' (length (c_pulses c)) = o_overflowed out \<and>
     snapshot_raw c' so = Some sr \<and>
     take (raw_snapshot_len c) sr =
       [lo_word (tick_count c'), hi_word (tick_count c'),
        lo_word (epoch c'), hi_word (epoch c'),
        0, of_nat (length (c_partitions c'))] @
       concat (map (\<lambda>p. [lo_word (p_value p), hi_word (p_value p)]) (c_partitions c')) \<and>
     partition_moduli_raw c mo = Some mo' \<and>
     take (2 * length (c_partitions c)) mo' =
       concat (map (\<lambda>p. [lo_word (p_modulus p), hi_word (p_modulus p)]) (c_partitions c)) \<and>
     (\<forall>i<length (c_partitions c).
        join_words (mo' ! (2 * i)) (mo' ! Suc (2 * i)) = p_modulus (c_partitions c ! i))"
proof -
  have ok0: "clock_ok c0" using assms(1) by (rule build_clock_ok)
  have c: "c = (stepped ^^ n) c0" using ticks_ok [OF ok0, of n] assms(2) by simp
  have ok: "clock_ok c" unfolding c using ok0 by (rule funpow_stepped_ok)
  have ls: "raw_snapshot_len c = raw_snapshot_len c0"
    and lb: "raw_pulse_words c = raw_pulse_words c0"
    and lp: "length (c_partitions c) = length (c_partitions c0)"
    unfolding c by (simp_all add: raw_len_funpow funpow_stepped_len)
  from raw_ticks_ok [OF ok0 assms(3,4), of n] obtain so_n bo_n
    where run: "raw_ticks n c0 so bo = Some ((so_n, bo_n), c)"
      and lso: "length so_n = length so" and lbo: "length bo_n = length bo"
    unfolding c by blast
  let ?ov = "c_tick c = - 1"
  let ?c' = "stepped c"
  let ?out = "\<lparr>o_snapshot = snapshot ?c',
      o_pulses = user_pulses ?c' @
        (if ?ov then [overflow_pulse (c_tick ?c') (c_epoch ?c')] else []),
      o_overflowed = ?ov\<rparr>"
  let ?so' = "snapshot_words (snapshot ?c') ?ov @ drop (raw_snapshot_len c) so_n"
  let ?bo' = "pack_bits (raw_pulse_words c) (met_flags ?c' @ [?ov]) @ drop (raw_pulse_words c) bo_n"
  let ?sr = "snapshot_words (snapshot ?c') False @ drop (raw_snapshot_len c) so"
  let ?M = "concat (map (\<lambda>p. [lo_word (p_modulus p), hi_word (p_modulus p)]) (c_partitions c))"
  let ?mo' = "?M @ drop (2 * length (c_partitions c)) mo"
  have t: "tick c = Some (?out, ?c')" using ok by (rule tick_ok)
  have g1: "raw_snapshot_len c \<le> length so_n" using assms(3) by (simp only: ls lso)
  have g2: "raw_pulse_words c \<le> length bo_n" using assms(4) by (simp only: lb lbo)
  have tr: "tick_raw c so_n bo_n = Some ((?so', ?bo'), ?c')" using ok g1 g2 by (rule tick_raw_ok)
  have small: "length (c_partitions c) < 2 ^ 32" using assms(6) by (simp only: lp)
  have ag: "raw_agrees c ?out ?so' ?bo'" using small by (rule raw_agrees_step)
  have lw: "length (snapshot_words (snapshot ?c') v) = raw_snapshot_len c" for v
    by (simp add: length_snapshot_words snapshot_def stepped_fields length_advanced
        raw_snapshot_len_def)
  have lay: "snapshot_words (snapshot ?c') v =
       [lo_word (tick_count ?c'), hi_word (tick_count ?c'),
        lo_word (epoch ?c'), hi_word (epoch ?c'),
        (if v then 1 else 0), of_nat (length (c_partitions ?c'))] @
       concat (map (\<lambda>p. [lo_word (p_value p), hi_word (p_value p)]) (c_partitions ?c'))" for v
    by (simp add: snapshot_words_layout snapshot_def tick_count_def epoch_def)
  have k1: "take (raw_snapshot_len c) ?so' = snapshot_words (snapshot ?c') ?ov"
    using lw by (rule take_written)
  have k2: "take (raw_snapshot_len c) ?sr = snapshot_words (snapshot ?c') False"
    using lw by (rule take_written)
  have room: "length (c_pulses c) < 32 * raw_pulse_words c"
    using bits_fit [of "length (c_pulses c)"] by (simp add: raw_pulse_words_def)
  have ovb: "bit_at ?bo' (length (c_pulses c)) = ?ov"
    using pulse_bits_decode(1) [of "stepped c" ?ov "drop (raw_pulse_words c) bo_n"]
    by (simp add: raw_len_stepped stepped_fields)
  have sr: "snapshot_raw ?c' so = Some ?sr"
    using assms(3) by (simp add: snapshot_raw_def write_buf_def lw ls)
  have m: "partition_moduli_raw c mo = Some ?mo'"
    using assms(5) by (intro moduli_raw_ok) (simp only: lp)
  have km: "take (2 * length (c_partitions c)) ?mo' = ?M"
    by (rule take_written) (rule length_pairs)
  have dm: "\<forall>i<length (c_partitions c).
        join_words (?mo' ! (2 * i)) (?mo' ! Suc (2 * i)) = p_modulus (c_partitions c ! i)"
    using moduli_decode by blast
  have fl: "(if o_overflowed ?out then (1::u32) else 0) = (if ?ov then 1 else 0)" by simp
  have L1: "take (raw_snapshot_len c) ?so' =
       [lo_word (tick_count ?c'), hi_word (tick_count ?c'),
        lo_word (epoch ?c'), hi_word (epoch ?c'),
        (if o_overflowed ?out then 1 else 0), of_nat (length (c_partitions ?c'))] @
       concat (map (\<lambda>p. [lo_word (p_value p), hi_word (p_value p)]) (c_partitions ?c'))"
    unfolding fl by (rule trans [OF k1 lay])
  have L2: "take (raw_snapshot_len c) ?sr =
       [lo_word (tick_count ?c'), hi_word (tick_count ?c'),
        lo_word (epoch ?c'), hi_word (epoch ?c'),
        0, of_nat (length (c_partitions ?c'))] @
       concat (map (\<lambda>p. [lo_word (p_value p), hi_word (p_value p)]) (c_partitions ?c'))"
    using trans [OF k2 lay [of False]] by (simp only: if_False)
  have ovb': "bit_at ?bo' (length (c_pulses c)) = o_overflowed ?out"
    using ovb by simp
  show ?thesis
    by (intro exI conjI) (rule run t tr ag L1 room ovb' sr L2 m km dm)+
qed

theorem raw_path_refines_witness:
  "build (pulse_every ''minute'' 60 sec_min) = Inr (fresh (pulse_every ''minute'' 60 sec_min)) \<and>
   raw_snapshot_len (fresh (pulse_every ''minute'' 60 sec_min)) \<le> length (replicate 10 (0::u32)) \<and>
   raw_pulse_words (fresh (pulse_every ''minute'' 60 sec_min)) \<le> length [0::u32] \<and>
   (\<exists>c so_n bo_n out c' so' bo'.
      ticks 59 (fresh (pulse_every ''minute'' 60 sec_min)) = Some c \<and>
      raw_ticks 59 (fresh (pulse_every ''minute'' 60 sec_min)) (replicate 10 0) [0]
        = Some ((so_n, bo_n), c) \<and>
      tick c = Some (out, c') \<and>
      tick_raw c so_n bo_n = Some ((so', bo'), c') \<and>
      raw_agrees c out so' bo')"
proof -
  let ?b = "pulse_every ''minute'' 60 sec_min"
  let ?c = "(stepped ^^ 59) (fresh ?b)"
  have b: "build ?b = Inr (fresh ?b)"
    by (simp add: build_def fresh_def sec_min_def add_partition_def partition_order_def
        pulse_every_def pulse_when_def new_def)
  have run: "ticks 59 (fresh ?b) = Some ?c"
    using build_clock_ok [OF b] by (rule ticks_ok)
  have l1: "raw_snapshot_len (fresh ?b) \<le> length (replicate 10 (0::u32))"
    by (simp add: raw_snapshot_len_def fresh_def sec_min_def add_partition_def
        partition_order_def pulse_every_def pulse_when_def new_def)
  have l2: "raw_pulse_words (fresh ?b) \<le> length [0::u32]"
    by (simp add: raw_pulse_words_def fresh_def sec_min_def add_partition_def
        partition_order_def pulse_every_def pulse_when_def new_def)
  have l3: "2 * length (c_partitions (fresh ?b)) \<le> length (replicate 4 (0::u32))"
    by (simp add: fresh_def sec_min_def add_partition_def partition_order_def
        pulse_every_def pulse_when_def new_def)
  have l4: "length (c_partitions (fresh ?b)) < 2 ^ 32"
    by (simp add: fresh_def sec_min_def add_partition_def partition_order_def
        pulse_every_def pulse_when_def new_def)
  from raw_path_refines [OF b run l1 l2 l3 l4] obtain so_n bo_n out c' so' bo'
    where "raw_ticks 59 (fresh ?b) (replicate 10 0) [0] = Some ((so_n, bo_n), ?c)"
      and "tick ?c = Some (out, c')"
      and "tick_raw ?c so_n bo_n = Some ((so', bo'), c')"
      and "raw_agrees ?c out so' bo'"
    by blast
  with b run l1 l2 show ?thesis by blast
qed

end
